theory Spec2Isabelle
  imports Main "HOL-Library.AList"
begin

section \<open>JavaScript values, objects, errors and wire messages\<close>

text \<open>
  The embedding follows \<^verbatim>\<open>lib/rpc_socket.ts\<close>. A JavaScript value is a primitive, an
  array, a reference to a non-array object (objects have identity: two references are the
  same instance iff they are equal), or the object literal \<^verbatim>\<open>{$rpcId: id}\<close> that the
  marshaller builds. The endpoint only ever looks at two properties of an object,
  \<^verbatim>\<open>$rpcId\<close> and \<^verbatim>\<open>$rpcMethods\<close>, and installs \<^verbatim>\<open>$free\<close>; an object of the heap
  records exactly these. JavaScript numbers that count (\<^verbatim>\<open>_callId\<close>, \<^verbatim>\<open>_stubCnt\<close>) are
  natural numbers: the embedding is exact below \<open>2^53\<close>, where a double holds every integer.

  \<^verbatim>\<open>ObjectId\<close> is declared as \<^verbatim>\<open>string\<close>, and the frames read from the transport and the
  keys of the registries are strings. What a \<^verbatim>\<open>$rpcId\<close> property holds, and so what a
  proxy passes to \<^verbatim>\<open>call\<close> and \<^verbatim>\<open>freeProxy\<close>, need not be: the constructor of
  \<^verbatim>\<open>RpcProxy\<close> defines a property for every method that the peer has announced, over
  the \<^verbatim>\<open>$rpcId\<close> it has just assigned when a method has that name. \<open>objid\<close> is such a
  value: an oid, or the function bound to the method of the given name (a function is never
  a key of a registry). \<open>objid_text\<close> is the text that \<^verbatim>\<open>toString\<close> gives; the source
  text of a function is not held here, and the name of the method stands for it. Reading a
  \<^verbatim>\<open>$rpcId\<close> that has become the accessor of a method \<^verbatim>\<open>get $rpcId\<close> runs
  \<^verbatim>\<open>this._socket.call(this.$rpcId, ...)\<close>, which reads the property again: the read never
  returns and ends in the \<^verbatim>\<open>RangeError\<close> of the exhausted stack (\<open>stack_exhausted\<close>, with
  the message that Node gives it), before \<^verbatim>\<open>call\<close> is entered.
\<close>

type_synonym ObjectId = string

type_synonym objref = nat

datatype jsval =
    VUndefined
  | VNull
  | VBool bool
  | VNum int
  | VStr string
  | VArr "jsval list"
  | VObj objref
  | VOid ObjectId

datatype objid = OidStr ObjectId | OidFun string

fun objid_text :: "objid \<Rightarrow> string" where
  "objid_text (OidStr rpcId) = rpcId"
| "objid_text (OidFun name) = name"

datatype rpcid_prop = RpcIdAbsent | RpcIdIs objid | RpcIdGetter

record jsobj =
  rpcIdField :: rpcid_prop
  rpcMethodsField :: "string list option"
  proxyMethods :: "string list option"
  freeIds :: "ObjectId list"

datatype jscode = CodeStr string | CodeNum int

datatype js_error =
  JsError (err_name: string) (err_message: string) (err_code: "jscode option")
    (err_stack: "string option") (err_objectId: "objid option")

definition TypeError :: "string \<Rightarrow> js_error" where
  "TypeError m = JsError ''TypeError'' m None None None"

definition SyntaxError :: "string \<Rightarrow> js_error" where
  "SyntaxError m = JsError ''SyntaxError'' m None None None"

definition GenericError :: "string \<Rightarrow> js_error" where
  "GenericError m = JsError ''Error'' m None None None"

definition RangeError :: "string \<Rightarrow> js_error" where
  "RangeError m = JsError ''RangeError'' m None None None"

definition SocketClosedError :: js_error where
  "SocketClosedError =
     JsError ''Error'' ''Socket closed'' (Some (CodeStr ''ERR_SOCKET_CLOSED'')) None None"

definition InvalidObjectError :: "objid \<Rightarrow> string \<Rightarrow> js_error" where
  "InvalidObjectError objId m = JsError ''Error'' m (Some (CodeStr ''ENXIO'')) None (Some objId)"

datatype msgid = IdUndefined | IdNull | IdNum nat

text \<open>
  A frame, over what it holds as the object of a call and as the id of a free notice: an
  oid in a frame read from the transport, as the interfaces declare; in a frame written,
  what the caller of \<^verbatim>\<open>call\<close> or \<^verbatim>\<open>freeProxy\<close> has passed.
\<close>

datatype 't message =
    NewObjectMsg ObjectId "string list"
  | CallMsg msgid 't string jsval
  | ReplyMsg msgid "string option" "string option" "string option" "jscode option" jsval
  | FreeMsg 't
  | OtherMsg string

datatype promise = RejectedPromise js_error | PendingPromise nat

datatype settlement = Resolved jsval | Rejected js_error

datatype event = ErrorEvent js_error | EndEvent | CloseEvent bool

section \<open>The endpoint\<close>

record rpc_stub =
  stub_rpcId :: ObjectId
  stub_object :: objref
  stub_methods :: "string list"

text \<open>
  The fields of \<^verbatim>\<open>RpcSocket\<close>, followed by what the endpoint acts on: \<open>wire\<close> is the
  sequence of \<^verbatim>\<open>_socket.write\<close> calls, \<open>heap\<close> the objects, \<open>nextObj\<close> the next fresh
  reference, \<open>settled\<close> the calls of \<^verbatim>\<open>resolve\<close> and \<^verbatim>\<open>reject\<close> on the parked
  resolvers (a resolver is named by the call id it was created for), \<open>emitted\<close> the events
  the endpoint emits. \<^verbatim>\<open>_pendingCalls\<close> is a \<^verbatim>\<open>Map\<close>, iterated in insertion order.
\<close>

record rpc_socket =
  knownStubs :: "objref \<rightharpoonup> rpc_stub"
  knownStubIds :: "ObjectId \<rightharpoonup> objref"
  knownProxies :: "ObjectId \<rightharpoonup> objref"
  pendingCalls :: "(nat \<times> nat) list"
  inCall :: bool
  newObjects :: "objid message list"
  callId :: nat
  ended :: bool
  stubCnt :: nat
  socketId :: string
  wire :: "objid message list"
  heap :: "objref \<Rightarrow> jsobj"
  nextObj :: objref
  settled :: "(nat \<times> settlement) list"
  emitted :: "event list"

definition plain_object :: jsobj where
  "plain_object =
     \<lparr>rpcIdField = RpcIdAbsent, rpcMethodsField = None, proxyMethods = None, freeIds = []\<rparr>"

definition stubbable_object :: "string list \<Rightarrow> jsobj" where
  "stubbable_object ms =
     \<lparr>rpcIdField = RpcIdAbsent, rpcMethodsField = Some ms, proxyMethods = None, freeIds = []\<rparr>"

text \<open>
  The constructor of \<^verbatim>\<open>RpcProxy\<close> assigns \<^verbatim>\<open>$rpcId\<close> and \<^verbatim>\<open>_socket\<close> and then, for
  every announced method in turn, defines a property on the instance: for \<^verbatim>\<open>get NAME\<close>
  an accessor named \<^verbatim>\<open>NAME\<close>, for any other method a function under the name of the
  method. A later definition replaces an earlier one, and a definition named \<^verbatim>\<open>$rpcId\<close>
  or \<^verbatim>\<open>_socket\<close> replaces the field, and one named \<^verbatim>\<open>$free\<close> hides the method of the
  class. \<open>proxy_prop name ms\<close> is what the name is on a proxy built for the methods \<open>ms\<close>:
  the constructor's own (the field, or the method of the class), a function, or an accessor.
\<close>

datatype prop_def = PropOwn | PropMethod | PropGetter

definition define_method :: "string \<Rightarrow> string \<Rightarrow> prop_def \<Rightarrow> prop_def" where
  "define_method name method d =
     (if take 4 method = ''get '' then (if drop 4 method = name then PropGetter else d)
      else (if method = name then PropMethod else d))"

definition proxy_prop :: "string \<Rightarrow> string list \<Rightarrow> prop_def" where
  "proxy_prop name ms = fold (define_method name) ms PropOwn"

text \<open>
  The proxy as the endpoint reads it. On a proxy \<^verbatim>\<open>$rpcId\<close> is never undefined, so that
  \<^verbatim>\<open>_marshalArgument\<close> does not come to read its \<^verbatim>\<open>$rpcMethods\<close>; \<^verbatim>\<open>addStub\<close> is
  given objects of the application (\<^verbatim>\<open>Stubbable\<close>), for which a proxy does not pass.
\<close>

definition proxy_object :: "ObjectId \<Rightarrow> string list \<Rightarrow> jsobj" where
  "proxy_object oid ms =
     \<lparr>rpcIdField =
        (case proxy_prop ''$rpcId'' ms of
           PropOwn \<Rightarrow> RpcIdIs (OidStr oid)
         | PropMethod \<Rightarrow> RpcIdIs (OidFun ''$rpcId'')
         | PropGetter \<Rightarrow> RpcIdGetter),
      rpcMethodsField = None, proxyMethods = Some ms, freeIds = []\<rparr>"

definition rpc_socket_init :: "string \<Rightarrow> rpc_socket" where
  "rpc_socket_init sid =
     \<lparr>knownStubs = Map.empty, knownStubIds = Map.empty, knownProxies = Map.empty,
      pendingCalls = [], inCall = False, newObjects = [], callId = 0, ended = False,
      stubCnt = 0, socketId = sid, wire = [], heap = (\<lambda>_. plain_object), nextObj = 0,
      settled = [], emitted = []\<rparr>"

text \<open>
  The decimal numeral of a number, as the concatenation \<^verbatim>\<open>this._socketId + cnt\<close> prints it.
\<close>

definition digit_char :: "nat \<Rightarrow> char" where
  "digit_char d = ''0123456789'' ! d"

fun string_of_nat :: "nat \<Rightarrow> string" where
  "string_of_nat n =
     (if n < 10 then [digit_char n] else string_of_nat (n div 10) @ [digit_char (n mod 10)])"

declare string_of_nat.simps [simp del]

definition socket_write :: "rpc_socket \<Rightarrow> objid message \<Rightarrow> rpc_socket" where
  "socket_write s msg = s\<lparr>wire := wire s @ [msg]\<rparr>"

definition sendMetadata :: "rpc_socket \<Rightarrow> rpc_stub \<Rightarrow> rpc_socket" where
  "sendMetadata s stub =
     (if inCall s
      then s\<lparr>newObjects := newObjects s @ [NewObjectMsg (stub_rpcId stub) (stub_methods stub)]\<rparr>
      else socket_write s (NewObjectMsg (stub_rpcId stub) (stub_methods stub)))"

text \<open>
  \<^verbatim>\<open>make$free\<close> wraps the object's \<^verbatim>\<open>$free\<close>: the new one deletes the id from the id map
  and then calls the previous one. \<open>freeIds\<close> lists the ids the object's \<^verbatim>\<open>$free\<close> deletes
  from this endpoint's id map, in the order of the calls.
\<close>

definition make_free :: "rpc_socket \<Rightarrow> objref \<Rightarrow> ObjectId \<Rightarrow> rpc_socket" where
  "make_free s obj ident =
     s\<lparr>heap := (heap s)(obj := (heap s obj)\<lparr>freeIds := ident # freeIds (heap s obj)\<rparr>)\<rparr>"

definition addStub :: "rpc_socket \<Rightarrow> objref \<Rightarrow> (js_error + ObjectId) \<times> rpc_socket" where
  "addStub s obj =
     (case knownStubs s obj of
        Some stub \<Rightarrow>
          (if knownStubIds s (stub_rpcId stub) = None
           then (Inr (stub_rpcId stub),
                 sendMetadata (s\<lparr>knownStubIds := (knownStubIds s)(stub_rpcId stub \<mapsto> obj)\<rparr>) stub)
           else (Inr (stub_rpcId stub), s))
      | None \<Rightarrow>
          (case rpcMethodsField (heap s obj) of
             None \<Rightarrow> (Inl (TypeError ''Invalid stub object''), s)
           | Some ms \<Rightarrow>
               (let cnt = stubCnt s;
                    s1 = s\<lparr>stubCnt := cnt + 1\<rparr>;
                    rpcId = socketId s1 @ string_of_nat cnt;
                    stub = \<lparr>stub_rpcId = rpcId, stub_object = obj, stub_methods = ms\<rparr>;
                    s2 = make_free s1 obj rpcId;
                    s3 = s2\<lparr>knownStubs := (knownStubs s2)(obj \<mapsto> stub)\<rparr>;
                    s4 = s3\<lparr>knownStubIds := (knownStubIds s3)(rpcId \<mapsto> obj)\<rparr>
                in (Inr rpcId, sendMetadata s4 stub))))"

text \<open>
  The \<^verbatim>\<open>$rpcId\<close> property of a non-array object, \<open>None\<close> when it is not an oid.
\<close>

fun rpcId_of :: "rpc_socket \<Rightarrow> jsval \<Rightarrow> ObjectId option" where
  "rpcId_of s (VObj r) =
     (case rpcIdField (heap s r) of RpcIdIs (OidStr rpcId) \<Rightarrow> Some rpcId | _ \<Rightarrow> None)"
| "rpcId_of s (VOid rid) = Some rid"
| "rpcId_of s v = None"

definition stack_exhausted :: js_error where
  "stack_exhausted = RangeError ''Maximum call stack size exceeded''"

fun marshalArgument :: "rpc_socket \<Rightarrow> jsval \<Rightarrow> (js_error + jsval) \<times> rpc_socket"
  and marshal_all :: "rpc_socket \<Rightarrow> jsval list \<Rightarrow> (js_error + jsval list) \<times> rpc_socket"
where
  "marshalArgument s (VArr xs) =
     (case marshal_all s xs of
        (Inl e, s') \<Rightarrow> (Inl e, s')
      | (Inr ys, s') \<Rightarrow> (Inr (VArr ys), s'))"
| "marshalArgument s (VObj r) =
     (case rpcIdField (heap s r) of
        RpcIdGetter \<Rightarrow> (Inl stack_exhausted, s)
      | RpcIdIs (OidStr rpcId) \<Rightarrow>
          (if knownProxies s rpcId \<noteq> None then (Inr (VOid rpcId), s)
           else (Inl (InvalidObjectError (OidStr rpcId)
                   (''Invalid object '' @ rpcId @ '', likely a proxy from a different socket'')), s))
      | RpcIdIs (OidFun f) \<Rightarrow>
          (Inl (InvalidObjectError (OidFun f)
             (''Invalid object '' @ objid_text (OidFun f)
                @ '', likely a proxy from a different socket'')), s)
      | RpcIdAbsent \<Rightarrow>
          (case rpcMethodsField (heap s r) of
             Some ms \<Rightarrow>
               (case addStub s r of
                  (Inl e, s') \<Rightarrow> (Inl e, s')
                | (Inr oid, s') \<Rightarrow> (Inr (VOid oid), s'))
           | None \<Rightarrow> (Inr (VObj r), s)))"
| "marshalArgument s (VOid rpcId) =
     (if knownProxies s rpcId \<noteq> None then (Inr (VOid rpcId), s)
      else (Inl (InvalidObjectError (OidStr rpcId)
              (''Invalid object '' @ rpcId @ '', likely a proxy from a different socket'')), s))"
| "marshalArgument s v = (Inr v, s)"
| "marshal_all s [] = (Inr [], s)"
| "marshal_all s (x # xs) =
     (case marshalArgument s x of
        (Inl e, s1) \<Rightarrow> (Inl e, s1)
      | (Inr y, s1) \<Rightarrow>
          (case marshal_all s1 xs of
             (Inl e, s2) \<Rightarrow> (Inl e, s2)
           | (Inr ys, s2) \<Rightarrow> (Inr (y # ys), s2)))"

definition unmarshal_oid :: "rpc_socket \<Rightarrow> ObjectId \<Rightarrow> js_error + jsval" where
  "unmarshal_oid s rpcId =
     (case knownStubIds s rpcId of
        Some stub \<Rightarrow> Inr (VObj stub)
      | None \<Rightarrow>
          (case knownProxies s rpcId of
             Some proxy \<Rightarrow> Inr (VObj proxy)
           | None \<Rightarrow> Inl (TypeError (''Invalid object '' @ rpcId))))"

fun unmarshalArgument :: "rpc_socket \<Rightarrow> jsval \<Rightarrow> js_error + jsval"
  and unmarshal_all :: "rpc_socket \<Rightarrow> jsval list \<Rightarrow> js_error + jsval list"
where
  "unmarshalArgument s (VArr xs) =
     (case unmarshal_all s xs of Inl e \<Rightarrow> Inl e | Inr ys \<Rightarrow> Inr (VArr ys))"
| "unmarshalArgument s (VObj r) =
     (case rpcIdField (heap s r) of
        RpcIdGetter \<Rightarrow> Inl stack_exhausted
      | RpcIdIs (OidStr rpcId) \<Rightarrow> unmarshal_oid s rpcId
      | RpcIdIs (OidFun f) \<Rightarrow> Inl (TypeError (''Invalid object '' @ objid_text (OidFun f)))
      | RpcIdAbsent \<Rightarrow> Inr (VObj r))"
| "unmarshalArgument s (VOid rpcId) = unmarshal_oid s rpcId"
| "unmarshalArgument s v = Inr v"
| "unmarshal_all s [] = Inr []"
| "unmarshal_all s (x # xs) =
     (case unmarshalArgument s x of
        Inl e \<Rightarrow> Inl e
      | Inr y \<Rightarrow> (case unmarshal_all s xs of Inl e \<Rightarrow> Inl e | Inr ys \<Rightarrow> Inr (y # ys)))"

definition reject :: "rpc_socket \<Rightarrow> nat \<Rightarrow> js_error \<Rightarrow> rpc_socket" where
  "reject s resolver e = s\<lparr>settled := settled s @ [(resolver, Rejected e)]\<rparr>"

definition resolve :: "rpc_socket \<Rightarrow> nat \<Rightarrow> jsval \<Rightarrow> rpc_socket" where
  "resolve s resolver v = s\<lparr>settled := settled s @ [(resolver, Resolved v)]\<rparr>"

definition failAllCalls :: "rpc_socket \<Rightarrow> rpc_socket" where
  "failAllCalls s =
     (let err = SocketClosedError;
          s1 = fold (\<lambda>c st. reject st (snd c) err) (pendingCalls s) s
      in s1\<lparr>pendingCalls := []\<rparr>)"

definition call ::
  "rpc_socket \<Rightarrow> objid \<Rightarrow> string \<Rightarrow> jsval list \<Rightarrow> (js_error + promise) \<times> rpc_socket" where
  "call s obj method args =
     (if inCall s then (Inl (TypeError ''Re-entrant calls are not supported''), s)
      else if ended s then (Inr (RejectedPromise SocketClosedError), s)
      else
        (case marshal_all (s\<lparr>inCall := True\<rparr>) args of
           (Inl e, s1) \<Rightarrow> (Inl e, s1)
         | (Inr marshalled, s1) \<Rightarrow>
             (let s2 = fold (\<lambda>m st. socket_write st m) (newObjects s1) s1;
                  s3 = s2\<lparr>newObjects := [], inCall := False\<rparr>;
                  ident = callId s3;
                  s4 = s3\<lparr>callId := ident + 1\<rparr>;
                  s5 = s4\<lparr>pendingCalls := AList.update ident ident (pendingCalls s4)\<rparr>
              in (Inr (PendingPromise ident),
                  socket_write s5 (CallMsg (IdNum ident) obj method (VArr marshalled))))))"

definition freeProxy :: "rpc_socket \<Rightarrow> objid \<Rightarrow> rpc_socket" where
  "freeProxy s ident =
     (let s1 = (case ident of
                  OidStr rpcId \<Rightarrow> s\<lparr>knownProxies := (knownProxies s)(rpcId := None)\<rparr>
                | OidFun f \<Rightarrow> s)
      in if ended s1 then s1 else socket_write s1 (FreeMsg ident))"

definition getProxy :: "rpc_socket \<Rightarrow> ObjectId \<Rightarrow> objref option" where
  "getProxy s ident = knownProxies s ident"

section \<open>Stubs and inbound calls\<close>

datatype stub_action = DoGet string | DoSet string jsval | DoCall string "jsval list"

definition validateCall :: "rpc_stub \<Rightarrow> string \<Rightarrow> js_error + unit" where
  "validateCall stub method =
     (if method \<notin> set (stub_methods stub) then Inl (TypeError (''Invalid method '' @ method))
      else Inr ())"

definition stub_get :: "rpc_stub \<Rightarrow> string \<Rightarrow> js_error + stub_action" where
  "stub_get stub name =
     (case validateCall stub (''get '' @ name) of Inl e \<Rightarrow> Inl e | Inr _ \<Rightarrow> Inr (DoGet name))"

definition stub_set :: "rpc_stub \<Rightarrow> string \<Rightarrow> jsval \<Rightarrow> js_error + stub_action" where
  "stub_set stub name v =
     (case validateCall stub (''get '' @ name) of Inl e \<Rightarrow> Inl e | Inr _ \<Rightarrow> Inr (DoSet name v))"

definition stub_call :: "rpc_stub \<Rightarrow> string \<Rightarrow> jsval list \<Rightarrow> js_error + stub_action" where
  "stub_call stub method args =
     (case validateCall stub method of Inl e \<Rightarrow> Inl e | Inr _ \<Rightarrow> Inr (DoCall method args))"

text \<open>
  The branch of \<^verbatim>\<open>_handleCall\<close> on the method name, up to the access to the target
  object: the result is the error thrown, or what is then done to the target.
\<close>

definition stub_dispatch :: "rpc_stub \<Rightarrow> string \<Rightarrow> jsval list \<Rightarrow> js_error + stub_action" where
  "stub_dispatch stub method unmarshalled =
     (if take 4 method = ''get '' then
        (if length unmarshalled \<noteq> 0
         then Inl (TypeError ''Wrong number of arguments, expected 0'')
         else stub_get stub (drop 4 method))
      else if take 4 method = ''set '' then
        (if length unmarshalled \<noteq> 1
         then Inl (TypeError ''Wrong number of arguments, expected 1'')
         else stub_set stub (drop 4 method) (unmarshalled ! 0))
      else stub_call stub method unmarshalled)"

datatype call_dispatch = Dropped | Threw js_error | Invoke objref stub_action

definition handleCall_try ::
  "rpc_socket \<Rightarrow> msgid \<Rightarrow> ObjectId \<Rightarrow> string \<Rightarrow> jsval \<Rightarrow> call_dispatch" where
  "handleCall_try s ident obj method params =
     (if ident = IdUndefined then Dropped
      else if knownStubIds s obj = None
      then Threw (InvalidObjectError (OidStr obj) (''Invalid object 0x'' @ obj))
      else
        (case params of
           VArr ps \<Rightarrow>
             (case unmarshal_all s ps of
                Inl e \<Rightarrow> Threw e
              | Inr unmarshalled \<Rightarrow>
                  (case knownStubs s (the (knownStubIds s obj)) of
                     None \<Rightarrow>
                       (if take 4 method = ''get '' \<and> length unmarshalled \<noteq> 0
                        then Threw (TypeError ''Wrong number of arguments, expected 0'')
                        else if take 4 method = ''set '' \<and> length unmarshalled \<noteq> 1
                        then Threw (TypeError ''Wrong number of arguments, expected 1'')
                        else Threw (TypeError ''Cannot read properties of undefined''))
                   | Some stub \<Rightarrow>
                       (case stub_dispatch stub method unmarshalled of
                          Inl e \<Rightarrow> Threw e
                        | Inr act \<Rightarrow> Invoke (stub_object stub) act)))
         | _ \<Rightarrow> Threw (TypeError ''Malformed method call'')))"

text \<open>The \<^verbatim>\<open>catch\<close> block of \<^verbatim>\<open>_handleCall\<close>: the error becomes a reply frame.\<close>

definition handleCall_catch :: "rpc_socket \<Rightarrow> msgid \<Rightarrow> js_error \<Rightarrow> rpc_socket" where
  "handleCall_catch s ident error =
     (if ended s then s
      else if ident = IdNull then s
      else if err_name error = ''SyntaxError''
      then socket_write s
             (ReplyMsg ident (Some ''SyntaxError'') (Some (err_message error)) (err_stack error)
                None VUndefined)
      else if err_name error = ''TypeError''
      then socket_write s
             (ReplyMsg ident (Some ''TypeError'') (Some (err_message error)) (err_stack error)
                None VUndefined)
      else if err_message error \<noteq> []
      then socket_write s
             (ReplyMsg ident (Some (err_message error)) None (err_stack error) (err_code error)
                VUndefined)
      else socket_write s (ReplyMsg ident (Some (err_name error)) None None None VUndefined))"

text \<open>The end of the \<^verbatim>\<open>try\<close> block, once the target has returned \<open>reply\<close>.\<close>

definition handleCall_return :: "rpc_socket \<Rightarrow> msgid \<Rightarrow> jsval \<Rightarrow> rpc_socket" where
  "handleCall_return s ident reply =
     (if ident = IdNull then s
      else
        (case marshalArgument s reply of
           (Inl e, s') \<Rightarrow> handleCall_catch s' ident e
         | (Inr m, s') \<Rightarrow> socket_write s' (ReplyMsg ident None None None None m)))"

definition handleCall :: "rpc_socket \<Rightarrow> msgid \<Rightarrow> ObjectId \<Rightarrow> string \<Rightarrow> jsval \<Rightarrow> rpc_socket" where
  "handleCall s ident obj method params =
     (case handleCall_try s ident obj method params of
        Dropped \<Rightarrow> s
      | Threw e \<Rightarrow> handleCall_catch s ident e
      | Invoke target act \<Rightarrow> s)"

section \<open>Replies, free notices and the router\<close>

text \<open>The error object that \<^verbatim>\<open>_handleReply\<close> builds from a reply frame with an error.\<close>

definition reply_error ::
  "string \<Rightarrow> string option \<Rightarrow> string option \<Rightarrow> jscode option \<Rightarrow> js_error" where
  "reply_error error msg stack code =
     (let err = (if error = ''SyntaxError'' then SyntaxError (case msg of None \<Rightarrow> [] | Some m \<Rightarrow> m)
                 else if error = ''TypeError'' then TypeError (case msg of None \<Rightarrow> [] | Some m \<Rightarrow> m)
                 else GenericError error);
          err1 = (case code of
                    None \<Rightarrow> err
                  | Some c \<Rightarrow> JsError (err_name err) (err_message err) (Some c) (err_stack err)
                               (err_objectId err));
          err2 = (case stack of
                    None \<Rightarrow> err1
                  | Some st \<Rightarrow>
                      (if st \<noteq> []
                       then JsError (err_name err1) (err_message err1) (err_code err1) (Some st)
                              (err_objectId err1)
                       else err1))
      in err2)"

definition handleReply ::
  "rpc_socket \<Rightarrow> msgid \<Rightarrow> string option \<Rightarrow> string option \<Rightarrow> string option \<Rightarrow> jscode option
     \<Rightarrow> jsval \<Rightarrow> rpc_socket" where
  "handleReply s ident error msg stack code reply =
     (case ident of
        IdUndefined \<Rightarrow> s
      | IdNull \<Rightarrow> s
      | IdNum n \<Rightarrow>
          (case map_of (pendingCalls s) n of
             None \<Rightarrow> s
           | Some resolver \<Rightarrow>
               (let s1 = s\<lparr>pendingCalls := AList.delete n (pendingCalls s)\<rparr>
                in if error \<noteq> None \<and> error \<noteq> Some []
                   then reject s1 resolver (reply_error (the error) msg stack code)
                   else (case unmarshalArgument s1 reply of
                           Inl e \<Rightarrow> reject s1 resolver e
                         | Inr v \<Rightarrow> resolve s1 resolver v))))"

definition handleFree :: "rpc_socket \<Rightarrow> ObjectId \<Rightarrow> rpc_socket" where
  "handleFree s ident =
     (if knownStubIds s ident \<noteq> None
      then s\<lparr>knownStubIds := (knownStubIds s)(ident := None)\<rparr>
      else s\<lparr>knownProxies := (knownProxies s)(ident := None)\<rparr>)"

text \<open>
  \<^verbatim>\<open>new RpcProxy(this, id, methods)\<close> allocates a fresh object and runs the constructor
  (\<open>proxy_object\<close>).
\<close>

definition new_proxy :: "rpc_socket \<Rightarrow> ObjectId \<Rightarrow> string list \<Rightarrow> objref \<times> rpc_socket" where
  "new_proxy s ident ms =
     (let r = nextObj s
      in (r, s\<lparr>heap := (heap s)(r := proxy_object ident ms), nextObj := r + 1\<rparr>))"

fun handleMessage :: "rpc_socket \<Rightarrow> ObjectId message \<Rightarrow> rpc_socket" where
  "handleMessage s (NewObjectMsg obj ms) =
     (if knownProxies s obj \<noteq> None then s
      else (case new_proxy s obj ms of
              (proxy, s1) \<Rightarrow> s1\<lparr>knownProxies := (knownProxies s1)(obj \<mapsto> proxy)\<rparr>))"
| "handleMessage s (CallMsg ident obj method params) = handleCall s ident obj method params"
| "handleMessage s (ReplyMsg ident error msg stack code reply) =
     handleReply s ident error msg stack code reply"
| "handleMessage s (FreeMsg ident) = handleFree s ident"
| "handleMessage s (OtherMsg c) = s"

section \<open>Transport events and the application\<close>

definition emit :: "rpc_socket \<Rightarrow> event \<Rightarrow> rpc_socket" where
  "emit s ev = s\<lparr>emitted := emitted s @ [ev]\<rparr>"

definition on_error :: "rpc_socket \<Rightarrow> js_error \<Rightarrow> rpc_socket" where
  "on_error s err = emit (failAllCalls s) (ErrorEvent err)"

definition on_end :: "rpc_socket \<Rightarrow> rpc_socket" where
  "on_end s = emit s EndEvent"

definition on_close :: "rpc_socket \<Rightarrow> bool \<Rightarrow> rpc_socket" where
  "on_close s hadError = emit (s\<lparr>ended := True\<rparr>) (CloseEvent hadError)"

text \<open>
  Calling \<^verbatim>\<open>proxy.$free()\<close> on a proxy built for the methods \<open>ms\<close>. The method of the
  class is \<^verbatim>\<open>this._socket.freeProxy(this.$rpcId)\<close>; a function that the constructor has
  defined under the name \<^verbatim>\<open>$free\<close> is \<^verbatim>\<open>this._socket.call(this.$rpcId, '$free', args)\<close>;
  an accessor of that name runs \<^verbatim>\<open>this._socket.call(this.$rpcId, 'get $free', [])\<close> when
  \<^verbatim>\<open>$free\<close> is read, and the call of the promise it returns then throws. In each of them
  \<^verbatim>\<open>this._socket\<close> is the endpoint unless a method has that name: a function in its place
  has no \<^verbatim>\<open>freeProxy\<close>, and its \<^verbatim>\<open>call\<close> is that of \<^verbatim>\<open>Function.prototype\<close>, which runs
  the function on a receiver that has no \<^verbatim>\<open>_socket\<close>; an accessor in its place reads
  itself without end. These throw, as does the read of a \<^verbatim>\<open>$rpcId\<close> that is an accessor,
  before the endpoint is reached. (The \<^verbatim>\<open>$rpcId\<close> of a proxy is never undefined.)
\<close>

definition proxy_free :: "rpc_socket \<Rightarrow> objref \<Rightarrow> string list \<Rightarrow> rpc_socket" where
  "proxy_free s proxy ms =
     (case proxy_prop ''_socket'' ms of
        PropOwn \<Rightarrow>
          (case rpcIdField (heap s proxy) of
             RpcIdIs rpcId \<Rightarrow>
               (case proxy_prop ''$free'' ms of
                  PropOwn \<Rightarrow> freeProxy s rpcId
                | PropMethod \<Rightarrow> snd (call s rpcId ''$free'' [])
                | PropGetter \<Rightarrow> snd (call s rpcId ''get $free'' []))
           | RpcIdGetter \<Rightarrow> s
           | RpcIdAbsent \<Rightarrow> s)
      | PropMethod \<Rightarrow> s
      | PropGetter \<Rightarrow> s)"

text \<open>
  Calling \<^verbatim>\<open>obj.$free()\<close>. Where \<^verbatim>\<open>make$free\<close> has installed its closure, that
  closure runs: it deletes the object's ids from the id map, then calls the \<^verbatim>\<open>$free\<close> it
  replaced, which is the application's (or, detached from its proxy, throws) and does
  nothing to the endpoint. Otherwise, on a proxy of this endpoint, it is the \<^verbatim>\<open>$free\<close> of
  the proxy.
\<close>

definition object_free :: "rpc_socket \<Rightarrow> objref \<Rightarrow> rpc_socket" where
  "object_free s obj =
     (if freeIds (heap s obj) \<noteq> []
      then s\<lparr>knownStubIds := fold (\<lambda>i m. m(i := None)) (freeIds (heap s obj)) (knownStubIds s)\<rparr>
      else
        (case proxyMethods (heap s obj) of
           Some ms \<Rightarrow> proxy_free s obj ms
         | None \<Rightarrow> s))"

text \<open>
  The application creates an object of its own. \<open>proxyMethods\<close> marks the proxies that
  this endpoint has built, whose \<^verbatim>\<open>_socket\<close> is this endpoint: an object of the
  application, and a proxy that belongs to another socket, is not one.
\<close>

definition new_object :: "rpc_socket \<Rightarrow> jsobj \<Rightarrow> rpc_socket" where
  "new_object s ob =
     s\<lparr>heap := (heap s)(nextObj s := ob\<lparr>proxyMethods := None\<rparr>), nextObj := nextObj s + 1\<rparr>"

text \<open>
  What can happen to an endpoint, one step at a time. \<open>OpCall\<close> is a call of \<^verbatim>\<open>call\<close>,
  by the application or by a method or accessor of a proxy, which passes what its
  \<^verbatim>\<open>$rpcId\<close> holds. An inbound call suspends at the \<^verbatim>\<open>await\<close> on the target;
  \<open>OpCallReturn\<close> and \<open>OpCallThrow\<close> resume it with the target's result.
\<close>

datatype op =
    OpAddStub objref
  | OpCall objid string "jsval list"
  | OpFreeProxy objid
  | OpFree objref
  | OpData "ObjectId message"
  | OpCallReturn msgid jsval
  | OpCallThrow msgid js_error
  | OpSocketError js_error
  | OpSocketEnd
  | OpSocketClose bool
  | OpNewObject jsobj

fun step :: "rpc_socket \<Rightarrow> op \<Rightarrow> rpc_socket" where
  "step s (OpAddStub obj) = snd (addStub s obj)"
| "step s (OpCall obj method args) = snd (call s obj method args)"
| "step s (OpFreeProxy ident) = freeProxy s ident"
| "step s (OpFree obj) = object_free s obj"
| "step s (OpData msg) = handleMessage s msg"
| "step s (OpCallReturn ident reply) = handleCall_return s ident reply"
| "step s (OpCallThrow ident e) = handleCall_catch s ident e"
| "step s (OpSocketError e) = on_error s e"
| "step s OpSocketEnd = on_end s"
| "step s (OpSocketClose hadError) = on_close s hadError"
| "step s (OpNewObject ob) = new_object s ob"

definition run :: "rpc_socket \<Rightarrow> op list \<Rightarrow> rpc_socket" where
  "run s ops = foldl step s ops"

section \<open>Relations between states, and example endpoints\<close>

text \<open>
  What marshalling leaves alone: the flags, the counters of calls, the pending calls, the
  proxies, and the transport while \<open>inCall\<close> is set (announcements are buffered then).
\<close>

definition marshal_frame :: "rpc_socket \<Rightarrow> rpc_socket \<Rightarrow> bool" where
  "marshal_frame s s' =
     (inCall s' = inCall s \<and> callId s' = callId s \<and> pendingCalls s' = pendingCalls s
      \<and> ended s' = ended s \<and> knownProxies s' = knownProxies s \<and> socketId s' = socketId s
      \<and> settled s' = settled s \<and> emitted s' = emitted s \<and> nextObj s' = nextObj s
      \<and> (if inCall s then wire s' = wire s else newObjects s' = newObjects s))"

text \<open>A fresh endpoint whose application holds a proxy that belongs to another socket.\<close>

definition ex_foreign :: rpc_socket where
  "ex_foreign = new_object (rpc_socket_init ''h-1:0:'') (proxy_object ''h-1:7:0'' [''getValue''])"

text \<open>
  The pending-call table and the log of settlements: a call id is parked at most once, under
  a resolver of the same number, below the counter, and a parked resolver has not been
  settled.
\<close>

definition pending_inv :: "rpc_socket \<Rightarrow> bool" where
  "pending_inv s =
     (distinct (map fst (pendingCalls s))
      \<and> (\<forall>i r. (i, r) \<in> set (pendingCalls s) \<longrightarrow> r = i \<and> i < callId s)
      \<and> (\<forall>i r out. (i, r) \<in> set (pendingCalls s) \<longrightarrow> (r, out) \<notin> set (settled s))
      \<and> (\<forall>r out. (r, out) \<in> set (settled s) \<longrightarrow> r < callId s))"

definition ex_two_calls :: rpc_socket where
  "ex_two_calls =
     run (rpc_socket_init ''h-1:0:'')
       [OpCall (OidStr ''h-2:0:0'') ''frobnicate'' [VStr ''x''],
        OpCall (OidStr ''h-2:0:0'') ''getValue'' []]"

text \<open>A fresh endpoint on which the application has published one object.\<close>

definition ex_stub :: rpc_socket where
  "ex_stub =
     run (rpc_socket_init ''h-1:0:'')
       [OpNewObject (stubbable_object [''get owner'', ''frobnicate'', ''getValue'']), OpAddStub 0]"


text \<open>
  The stub registry: a registered object has been allocated, its \<^verbatim>\<open>$free\<close> deletes its oid,
  the oid is the socket id followed by a number below the counter, no two objects share an
  oid, the id map points at registered objects only, and references that have not been
  allocated are plain.
\<close>

definition stubs_inv :: "rpc_socket \<Rightarrow> bool" where
  "stubs_inv s =
     ((\<forall>obj stub. knownStubs s obj = Some stub \<longrightarrow>
          stub_object stub = obj \<and> obj < nextObj s
          \<and> stub_rpcId stub \<in> set (freeIds (heap s obj))
          \<and> (\<exists>n. n < stubCnt s \<and> stub_rpcId stub = socketId s @ string_of_nat n))
      \<and> (\<forall>o1 o2 st1 st2. knownStubs s o1 = Some st1 \<longrightarrow> knownStubs s o2 = Some st2 \<longrightarrow>
             stub_rpcId st1 = stub_rpcId st2 \<longrightarrow> o1 = o2)
      \<and> (\<forall>oid obj. knownStubIds s oid = Some obj \<longrightarrow>
             (\<exists>stub. knownStubs s obj = Some stub \<and> stub_rpcId stub = oid))
      \<and> (\<forall>r. nextObj s \<le> r \<longrightarrow> heap s r = plain_object))"

text \<open>
  The proxies: a proxy of the registry has been allocated and is as the constructor has
  built it for the oid it is registered under, and the \<^verbatim>\<open>$rpcId\<close> of a proxy is never
  undefined. \<open>proxy_sub\<close> relates a state to a later one in which the registry holds no
  new proxy and the objects are the same as far as proxies go.
\<close>

definition proxies_inv :: "rpc_socket \<Rightarrow> bool" where
  "proxies_inv s =
     ((\<forall>oid p. knownProxies s oid = Some p \<longrightarrow>
          p < nextObj s
          \<and> (\<exists>ms. proxyMethods (heap s p) = Some ms
                 \<and> rpcIdField (heap s p) = rpcIdField (proxy_object oid ms)))
      \<and> (\<forall>r ms. proxyMethods (heap s r) = Some ms \<longrightarrow> rpcIdField (heap s r) \<noteq> RpcIdAbsent))"

definition proxy_sub :: "rpc_socket \<Rightarrow> rpc_socket \<Rightarrow> bool" where
  "proxy_sub s t =
     ((\<forall>oid p. knownProxies t oid = Some p \<longrightarrow> knownProxies s oid = Some p)
      \<and> nextObj t = nextObj s
      \<and> (\<forall>r. proxyMethods (heap t r) = proxyMethods (heap s r)
             \<and> rpcIdField (heap t r) = rpcIdField (heap s r)))"

text \<open>The same endpoint after the application has called \<^verbatim>\<open>$free\<close> on the object.\<close>

definition ex_freed :: rpc_socket where
  "ex_freed =
     run (rpc_socket_init ''h-1:0:'')
       [OpNewObject (stubbable_object [''get owner'', ''frobnicate'', ''getValue'']), OpAddStub 0,
        OpFree 0]"

text \<open>
  The values of the round trip: primitives, arrays of such values, and objects that either
  carry no \<^verbatim>\<open>$rpcId\<close> (stubbable objects and plain data without that property) or are
  the proxy that the proxy registry holds under the oid that their \<^verbatim>\<open>$rpcId\<close> holds. An
  object whose \<^verbatim>\<open>$rpcId\<close> is a function or an accessor is not among them, nor is a
  stubbable object with a \<^verbatim>\<open>$rpcId\<close> of its own. \<open>proxy_oids\<close> lists the oids of the
  proxies in a value.
\<close>

fun roundtrip_value :: "rpc_socket \<Rightarrow> jsval \<Rightarrow> bool"
  and roundtrip_values :: "rpc_socket \<Rightarrow> jsval list \<Rightarrow> bool"
where
  "roundtrip_value s (VArr xs) = roundtrip_values s xs"
| "roundtrip_value s (VObj r) =
     (case rpcIdField (heap s r) of
        RpcIdAbsent \<Rightarrow> True
      | RpcIdIs (OidStr rpcId) \<Rightarrow> knownProxies s rpcId = Some r
      | RpcIdIs (OidFun f) \<Rightarrow> False
      | RpcIdGetter \<Rightarrow> False)"
| "roundtrip_value s (VOid rpcId) = False"
| "roundtrip_value s v = True"
| "roundtrip_values s [] = True"
| "roundtrip_values s (x # xs) = (roundtrip_value s x \<and> roundtrip_values s xs)"

fun proxy_oids :: "rpc_socket \<Rightarrow> jsval \<Rightarrow> ObjectId list"
  and proxy_oids_all :: "rpc_socket \<Rightarrow> jsval list \<Rightarrow> ObjectId list"
where
  "proxy_oids s (VArr xs) = proxy_oids_all s xs"
| "proxy_oids s (VObj r) =
     (case rpcIdField (heap s r) of RpcIdIs (OidStr rpcId) \<Rightarrow> [rpcId] | _ \<Rightarrow> [])"
| "proxy_oids s v = []"
| "proxy_oids_all s [] = []"
| "proxy_oids_all s (x # xs) = proxy_oids s x @ proxy_oids_all s xs"

text \<open>
  From one state to a later one: the id map has only grown, the proxies and the
  \<^verbatim>\<open>$rpcId\<close> of every object are the same.
\<close>

definition marshal_ext :: "rpc_socket \<Rightarrow> rpc_socket \<Rightarrow> bool" where
  "marshal_ext s t =
     ((\<forall>oid obj. knownStubIds s oid = Some obj \<longrightarrow> knownStubIds t oid = Some obj)
      \<and> knownProxies t = knownProxies s
      \<and> (\<forall>r. rpcIdField (heap t r) = rpcIdField (heap s r)))"

text \<open>
  An endpoint that has published an object and then received a new-object frame that
  carries the oid of that very object; an endpoint whose peer has announced an object with
  a method named \<^verbatim>\<open>$rpcId\<close>; an endpoint that has published a stubbable object which
  carries a \<^verbatim>\<open>$rpcId\<close> of its own; and an endpoint that holds a proxy, a stubbable
  object and a plain object, with the payload of the mixed round trip and its wire form.
\<close>

definition ex_clash :: rpc_socket where
  "ex_clash =
     run (rpc_socket_init ''h-1:0:'')
       [OpNewObject (stubbable_object [''frobnicate'']), OpAddStub 0,
        OpData (NewObjectMsg ''h-1:0:0'' [''getValue''])]"

definition ex_shadow :: rpc_socket where
  "ex_shadow =
     run (rpc_socket_init ''h-1:0:'')
       [OpData (NewObjectMsg ''h-2:0:1'' [''getValue'', ''$rpcId''])]"

definition ex_tagged :: rpc_socket where
  "ex_tagged =
     run (rpc_socket_init ''h-1:0:'')
       [OpNewObject ((stubbable_object [''frobnicate''])\<lparr>rpcIdField := RpcIdIs (OidStr ''mine'')\<rparr>),
        OpAddStub 0]"

definition ex_mixed :: rpc_socket where
  "ex_mixed =
     run (rpc_socket_init ''h-1:0:'')
       [OpData (NewObjectMsg ''h-2:0:1'' [''get owner'', ''frobnicate'', ''getValue'']),
        OpNewObject (stubbable_object [''get owner'', ''frobnicate'', ''getValue'']),
        OpNewObject plain_object]"

definition ex_payload :: jsval where
  "ex_payload = VArr [VObj 0, VObj 1, VArr [VObj 0, VObj 1, VNum 7], VObj 2, VStr ''72'']"

definition ex_payload_wire :: jsval where
  "ex_payload_wire =
     VArr [VOid ''h-2:0:1'', VOid ''h-1:0:0'', VArr [VOid ''h-2:0:1'', VOid ''h-1:0:0'', VNum 7],
           VObj 2, VStr ''72'']"

text \<open>
  The oids in a marshalled value; the oids that the new-object frames of a sequence of
  messages announce; and the ordering of a wire: every oid in the parameters of a call
  frame is in \<open>seen\<close>, the oids given at the start together with those of the new-object
  frames written before the call frame. \<open>inbound_oids\<close> lists the oids of the new-object
  frames that the endpoint has received.
\<close>

fun oids_of :: "jsval \<Rightarrow> ObjectId list"
  and oids_of_all :: "jsval list \<Rightarrow> ObjectId list"
where
  "oids_of (VArr xs) = oids_of_all xs"
| "oids_of (VOid rpcId) = [rpcId]"
| "oids_of v = []"
| "oids_of_all [] = []"
| "oids_of_all (x # xs) = oids_of x @ oids_of_all xs"

fun is_call :: "'t message \<Rightarrow> bool" where
  "is_call (CallMsg ident obj meth params) = True"
| "is_call m = False"

fun ann_oids :: "'t message list \<Rightarrow> ObjectId list" where
  "ann_oids [] = []"
| "ann_oids (NewObjectMsg oid ms # w) = oid # ann_oids w"
| "ann_oids (m # w) = ann_oids w"

fun ordered_wire :: "ObjectId list \<Rightarrow> 't message list \<Rightarrow> bool" where
  "ordered_wire seen [] = True"
| "ordered_wire seen (NewObjectMsg oid ms # w) = ordered_wire (oid # seen) w"
| "ordered_wire seen (CallMsg ident obj meth params # w) =
     (set (oids_of params) \<subseteq> set seen \<and> ordered_wire seen w)"
| "ordered_wire seen (m # w) = ordered_wire seen w"

fun inbound_oids :: "op list \<Rightarrow> ObjectId list" where
  "inbound_oids [] = []"
| "inbound_oids (OpData (NewObjectMsg oid ms) # ops) = oid # inbound_oids ops"
| "inbound_oids (x # ops) = inbound_oids ops"

text \<open>
  What holds of the transport of an endpoint whose peer has announced \<open>px\<close>: the wire is
  ordered, the proxies are among \<open>px\<close>, every oid of the id map has been announced on the
  wire or in the buffer, and the buffer holds announcements only and is empty outside
  \<open>call\<close>.
\<close>

definition wire_inv :: "ObjectId list \<Rightarrow> rpc_socket \<Rightarrow> bool" where
  "wire_inv px s =
     (ordered_wire px (wire s)
      \<and> (\<forall>oid. knownProxies s oid \<noteq> None \<longrightarrow> oid \<in> set px)
      \<and> (\<forall>oid. knownStubIds s oid \<noteq> None \<longrightarrow>
            oid \<in> set (ann_oids (wire s)) \<union> set (ann_oids (newObjects s)))
      \<and> (\<forall>m. m \<in> set (newObjects s) \<longrightarrow> \<not> is_call m)
      \<and> (\<not> inCall s \<longrightarrow> newObjects s = []))"

definition announced :: "rpc_socket \<Rightarrow> ObjectId set" where
  "announced s = set (ann_oids (wire s)) \<union> set (ann_oids (newObjects s))"

text \<open>A fresh endpoint that has received the announcement of one object of its peer.\<close>

definition ex_proxy :: rpc_socket where
  "ex_proxy =
     run (rpc_socket_init ''h-1:0:'')
       [OpData (NewObjectMsg ''h-2:0:1'' [''get owner'', ''frobnicate'', ''getValue''])]"

section \<open>What marshalling preserves\<close>

lemma marshal_rel:
  assumes refl: "\<And>s. R s s"
    and trans: "\<And>s s1 s2. R s s1 \<Longrightarrow> R s1 s2 \<Longrightarrow> R s s2"
    and stub: "\<And>s obj. R s (snd (addStub s obj))"
  shows "R s (snd (marshalArgument s v))" and "R s (snd (marshal_all s vs))"
proof (induction s v and s vs rule: marshalArgument_marshal_all.induct)
  case (1 s xs)
  then show ?case by (cases "marshal_all s xs") (auto split: sum.splits)
next
  case (2 s r)
  show ?case using stub [of s r] refl [of s]
    by (cases "addStub s r") (auto split: option.splits sum.splits rpcid_prop.splits objid.splits)
next
  case (6 s x xs)
  obtain r1 s1 where m1: "marshalArgument s x = (r1, s1)" by (cases "marshalArgument s x")
  with 6 have a: "R s s1" by simp
  show ?case
  proof (cases r1)
    case (Inl e)
    with m1 a show ?thesis by simp
  next
    case (Inr y)
    obtain r2 s2 where m2: "marshal_all s1 xs = (r2, s2)" by (cases "marshal_all s1 xs")
    from 6(2) [OF m1 [symmetric], of y] Inr m2 have "R s1 s2" by simp
    with a have "R s s2" by (rule trans)
    with m1 m2 Inr show ?thesis by (simp split: sum.splits)
  qed
qed (simp_all add: refl)

lemma marshal_frame_refl: "marshal_frame s s"
  by (simp add: marshal_frame_def)

lemma marshal_frame_trans: "marshal_frame s s1 \<Longrightarrow> marshal_frame s1 s2 \<Longrightarrow> marshal_frame s s2"
  by (simp add: marshal_frame_def)

lemma addStub_frame: "marshal_frame s (snd (addStub s obj))"
  by (simp add: marshal_frame_def addStub_def sendMetadata_def socket_write_def make_free_def
      Let_def split: option.splits)

lemma marshalArgument_frame: "marshal_frame s (snd (marshalArgument s v))"
  by (rule marshal_rel(1) [of marshal_frame, OF marshal_frame_refl marshal_frame_trans addStub_frame])

lemma marshal_all_frame: "marshal_frame s (snd (marshal_all s vs))"
  by (rule marshal_rel(2) [of marshal_frame, OF marshal_frame_refl marshal_frame_trans addStub_frame])

lemma marshal_foreign_oid:
  assumes "rpcId_of s a = Some rid" and "knownProxies s rid = None"
  shows "marshalArgument s a =
           (Inl (InvalidObjectError (OidStr rid)
                   (''Invalid object '' @ rid @ '', likely a proxy from a different socket'')), s)"
  using assms by (cases a) (auto split: rpcid_prop.splits objid.splits)

text \<open>The loops of \<open>call\<close> and \<open>failAllCalls\<close>, and \<open>call\<close> when it succeeds.\<close>

lemma fold_reject:
  "fold (\<lambda>c st. reject st (snd c) err) cs s
     = s\<lparr>settled := settled s @ map (\<lambda>c. (snd c, Rejected err)) cs\<rparr>"
  by (induction cs arbitrary: s) (simp_all add: reject_def)

lemma failAllCalls_eq:
  "failAllCalls s =
     s\<lparr>settled := settled s @ map (\<lambda>c. (snd c, Rejected SocketClosedError)) (pendingCalls s),
       pendingCalls := []\<rparr>"
  by (simp add: failAllCalls_def fold_reject Let_def)

lemma fold_socket_write:
  "fold (\<lambda>m st. socket_write st m) ms s = s\<lparr>wire := wire s @ ms\<rparr>"
  by (induction ms arbitrary: s) (simp_all add: socket_write_def)

lemma call_success:
  assumes "\<not> inCall s" and "\<not> ended s"
    and "marshal_all (s\<lparr>inCall := True\<rparr>) args = (Inr marshalled, s1)"
  shows "call s obj method args =
           (Inr (PendingPromise (callId s1)),
            s1\<lparr>wire := wire s1 @ newObjects s1
                         @ [CallMsg (IdNum (callId s1)) obj method (VArr marshalled)],
               newObjects := [], inCall := False, callId := callId s1 + 1,
               pendingCalls := AList.update (callId s1) (callId s1) (pendingCalls s1)\<rparr>)"
  using assms unfolding call_def Let_def fold_socket_write
  by (simp add: socket_write_def)

section \<open>The re-entrancy flag never comes back\<close>

lemma handleCall_catch_inCall: "inCall (handleCall_catch s ident e) = inCall s"
  by (simp add: handleCall_catch_def socket_write_def)

lemma handleCall_return_inCall: "inCall (handleCall_return s ident v) = inCall s"
  using marshalArgument_frame [of s v]
  by (auto simp: handleCall_return_def handleCall_catch_inCall socket_write_def marshal_frame_def
      split: prod.splits sum.splits)

lemma fold_reject_inCall: "inCall (fold (\<lambda>c st. reject st (snd c) err) cs s) = inCall s"
  by (induction cs arbitrary: s) (simp_all add: reject_def)

lemma handleMessage_inCall: "inCall (handleMessage s msg) = inCall s"
  by (cases msg)
    (auto simp: new_proxy_def handleCall_def handleCall_catch_inCall handleReply_def
      handleFree_def reject_def resolve_def Let_def
      split: call_dispatch.splits msgid.splits option.splits sum.splits)

lemma step_inCall: "inCall s \<Longrightarrow> inCall (step s op)"
proof (cases op)
  case (OpAddStub obj)
  then show "inCall s \<Longrightarrow> inCall (step s op)"
    using addStub_frame [of s obj] by (simp add: marshal_frame_def)
next
  case (OpCall obj meth args)
  then show "inCall s \<Longrightarrow> inCall (step s op)" by (simp add: call_def)
qed (simp_all add: freeProxy_def object_free_def proxy_free_def call_def handleMessage_inCall
      handleCall_return_inCall handleCall_catch_inCall on_error_def on_end_def on_close_def
      emit_def failAllCalls_def fold_reject_inCall new_object_def socket_write_def Let_def
      split: option.splits prop_def.splits rpcid_prop.splits objid.splits)

lemma run_inCall: "inCall s \<Longrightarrow> inCall (run s ops)"
  unfolding run_def by (induction ops arbitrary: s) (simp_all add: step_inCall)

lemma proxy_prop_Nil: "proxy_prop name [] = PropOwn"
  by (simp add: proxy_prop_def)

lemma proxy_prop_Cons:
  "proxy_prop name (m # ms) = fold (define_method name) ms (define_method name m PropOwn)"
  by (simp add: proxy_prop_def)

lemma ex_foreign_call:
  "call ex_foreign (OidStr ''h-2:0:0'') ''frobnicate'' [VObj 0] =
     (Inl (InvalidObjectError (OidStr ''h-1:7:0'')
             ''Invalid object h-1:7:0, likely a proxy from a different socket''),
      ex_foreign\<lparr>inCall := True\<rparr>)"
  by (simp add: call_def ex_foreign_def new_object_def rpc_socket_init_def proxy_object_def
      proxy_prop_def define_method_def)

section \<open>Example endpoints, and what unmarshalling reads\<close>

lemma string_of_nat_0: "string_of_nat 0 = ''0''"
  by (simp add: string_of_nat.simps digit_char_def)

lemma ex_stub_eq:
  "knownStubIds ex_stub ''h-1:0:0'' = Some 0
   \<and> knownStubs ex_stub 0
       = Some \<lparr>stub_rpcId = ''h-1:0:0'', stub_object = 0,
               stub_methods = [''get owner'', ''frobnicate'', ''getValue'']\<rparr>
   \<and> wire ex_stub = [NewObjectMsg ''h-1:0:0'' [''get owner'', ''frobnicate'', ''getValue'']]"
  by (simp add: ex_stub_def run_def new_object_def addStub_def rpc_socket_init_def
      stubbable_object_def make_free_def sendMetadata_def socket_write_def Let_def string_of_nat_0)


text \<open>
  What \<^verbatim>\<open>$free\<close> of a proxy comes to: nothing, \<open>freeProxy\<close>, or a \<open>call\<close> without
  arguments.
\<close>

lemma proxy_free_rel:
  assumes "P s" and "\<And>rid. P (freeProxy s rid)" and "\<And>rid m. P (snd (call s rid m []))"
  shows "P (proxy_free s proxy ms)"
  using assms by (simp add: proxy_free_def split: prop_def.splits rpcid_prop.splits)

section \<open>The stub registry\<close>

lemma digit_char_inj:
  assumes "a < 10" and "b < 10" and "digit_char a = digit_char b"
  shows "a = b"
proof -
  have d: "distinct ''0123456789''" by simp
  have "length ''0123456789'' = 10" by simp
  with assms d show ?thesis
    unfolding digit_char_def by (simp only: nth_eq_iff_index_eq)
qed

lemma string_of_nat_nonempty: "string_of_nat n \<noteq> []"
  by (subst string_of_nat.simps) simp

lemma string_of_nat_inj: "string_of_nat n = string_of_nat m \<Longrightarrow> n = m"
proof (induction n arbitrary: m rule: string_of_nat.induct)
  case (1 n)
  show ?case
  proof (cases "n < 10")
    case True
    show ?thesis
    proof (cases "m < 10")
      case m: True
      with True 1(2) show ?thesis
        by (simp add: string_of_nat.simps [of n] string_of_nat.simps [of m] digit_char_inj)
    next
      case False
      with True 1(2) string_of_nat_nonempty [of "m div 10"] show ?thesis
        by (simp add: string_of_nat.simps [of n] string_of_nat.simps [of m])
    qed
  next
    case False
    show ?thesis
    proof (cases "m < 10")
      case True
      with False 1(2) string_of_nat_nonempty [of "n div 10"] show ?thesis
        by (simp add: string_of_nat.simps [of n] string_of_nat.simps [of m])
    next
      case m: False
      with False 1(2) have e: "string_of_nat (n div 10) = string_of_nat (m div 10)"
        and d: "digit_char (n mod 10) = digit_char (m mod 10)"
        by (simp_all add: string_of_nat.simps [of n] string_of_nat.simps [of m])
      from 1(1) [OF False e] have "n div 10 = m div 10" .
      moreover from d have "n mod 10 = m mod 10" by (intro digit_char_inj) simp_all
      ultimately show ?thesis by (metis div_mult_mod_eq)
    qed
  qed
qed


lemma stubs_inv_frame:
  assumes "knownStubs s' = knownStubs s" and "knownStubIds s' = knownStubIds s"
    and "heap s' = heap s" and "nextObj s' = nextObj s" and "stubCnt s' = stubCnt s"
    and "socketId s' = socketId s"
  shows "stubs_inv s' = stubs_inv s"
  using assms by (simp add: stubs_inv_def)

lemma sendMetadata_stubs_inv: "stubs_inv (sendMetadata s stub) = stubs_inv s"
  by (rule stubs_inv_frame) (simp_all add: sendMetadata_def socket_write_def)

lemma addStub_live:
  assumes "knownStubs s obj = Some stub" and "knownStubIds s (stub_rpcId stub) \<noteq> None"
  shows "addStub s obj = (Inr (stub_rpcId stub), s)"
  using assms by (auto simp: addStub_def)

lemma addStub_freed:
  assumes "knownStubs s obj = Some stub" and "knownStubIds s (stub_rpcId stub) = None"
  shows "addStub s obj =
           (Inr (stub_rpcId stub),
            sendMetadata (s\<lparr>knownStubIds := (knownStubIds s)(stub_rpcId stub \<mapsto> obj)\<rparr>) stub)"
  using assms by (simp add: addStub_def)

lemma addStub_new:
  assumes "knownStubs s obj = None" and "rpcMethodsField (heap s obj) = Some ms"
  shows "addStub s obj =
           (Inr (socketId s @ string_of_nat (stubCnt s)),
            sendMetadata
              (s\<lparr>stubCnt := stubCnt s + 1,
                 heap := (heap s)(obj := (heap s obj)
                           \<lparr>freeIds := (socketId s @ string_of_nat (stubCnt s))
                                        # freeIds (heap s obj)\<rparr>),
                 knownStubs := (knownStubs s)(obj \<mapsto>
                           \<lparr>stub_rpcId = socketId s @ string_of_nat (stubCnt s),
                            stub_object = obj, stub_methods = ms\<rparr>),
                 knownStubIds := (knownStubIds s)(socketId s @ string_of_nat (stubCnt s) \<mapsto> obj)\<rparr>)
              \<lparr>stub_rpcId = socketId s @ string_of_nat (stubCnt s),
               stub_object = obj, stub_methods = ms\<rparr>)"
  using assms by (simp add: addStub_def make_free_def Let_def)

lemma addStub_invalid:
  assumes "knownStubs s obj = None" and "rpcMethodsField (heap s obj) = None"
  shows "addStub s obj = (Inl (TypeError ''Invalid stub object''), s)"
  using assms by (simp add: addStub_def)

lemma stubs_inv_install:
  assumes inv: "stubs_inv s" and k: "knownStubs s obj = Some stub"
  shows "stubs_inv (s\<lparr>knownStubIds := (knownStubIds s)(stub_rpcId stub \<mapsto> obj)\<rparr>)"
  using inv k unfolding stubs_inv_def by auto

lemma stubs_inv_register:
  assumes inv: "stubs_inv s" and k: "knownStubs s obj = None"
    and m: "rpcMethodsField (heap s obj) = Some ms"
  shows "stubs_inv
           (s\<lparr>stubCnt := stubCnt s + 1,
              heap := (heap s)(obj := (heap s obj)
                        \<lparr>freeIds := (socketId s @ string_of_nat (stubCnt s))
                                     # freeIds (heap s obj)\<rparr>),
              knownStubs := (knownStubs s)(obj \<mapsto>
                        \<lparr>stub_rpcId = socketId s @ string_of_nat (stubCnt s),
                         stub_object = obj, stub_methods = ms\<rparr>),
              knownStubIds := (knownStubIds s)(socketId s @ string_of_nat (stubCnt s) \<mapsto> obj)\<rparr>)"
    (is "stubs_inv ?s'")
proof -
  let ?rid = "socketId s @ string_of_nat (stubCnt s)"
  have lt: "obj < nextObj s"
  proof (rule ccontr)
    assume "\<not> obj < nextObj s"
    with inv have "heap s obj = plain_object" by (simp add: stubs_inv_def)
    with m show False by (simp add: plain_object_def)
  qed
  have fresh: "stub_rpcId st \<noteq> ?rid" if "knownStubs s ob = Some st" for ob st
  proof -
    from inv that obtain n where "n < stubCnt s" and "stub_rpcId st = socketId s @ string_of_nat n"
      unfolding stubs_inv_def by blast
    then show ?thesis using string_of_nat_inj [of n "stubCnt s"] by auto
  qed
  have c1: "stub_object st = ob \<and> ob < nextObj ?s'
        \<and> stub_rpcId st \<in> set (freeIds (heap ?s' ob))
        \<and> (\<exists>n. n < stubCnt ?s' \<and> stub_rpcId st = socketId ?s' @ string_of_nat n)"
    if "knownStubs ?s' ob = Some st" for ob st
  proof (cases "ob = obj")
    case True
    with that lt show ?thesis by auto
  next
    case False
    with that have old: "knownStubs s ob = Some st" by simp
    with inv have "stub_object st = ob" "ob < nextObj s"
      "stub_rpcId st \<in> set (freeIds (heap s ob))"
      "\<exists>n. n < stubCnt s \<and> stub_rpcId st = socketId s @ string_of_nat n"
      unfolding stubs_inv_def by blast+
    with False show ?thesis by (auto intro: less_SucI)
  qed
  have c2: "o1 = o2"
    if "knownStubs ?s' o1 = Some st1" "knownStubs ?s' o2 = Some st2"
      "stub_rpcId st1 = stub_rpcId st2" for o1 o2 st1 st2
  proof (cases "o1 = obj"; cases "o2 = obj")
    assume a: "o1 \<noteq> obj" "o2 \<noteq> obj"
    with that have "knownStubs s o1 = Some st1" "knownStubs s o2 = Some st2" by simp_all
    with inv that(3) show ?thesis unfolding stubs_inv_def by blast
  next
    assume a: "o1 = obj" "o2 \<noteq> obj"
    with that have "knownStubs s o2 = Some st2" "stub_rpcId st1 = ?rid" by auto
    with fresh that(3) show ?thesis by auto
  next
    assume a: "o1 \<noteq> obj" "o2 = obj"
    with that have "knownStubs s o1 = Some st1" "stub_rpcId st2 = ?rid" by auto
    with fresh that(3) show ?thesis by auto
  qed simp
  have c3: "\<exists>st. knownStubs ?s' ob = Some st \<and> stub_rpcId st = oid"
    if "knownStubIds ?s' oid = Some ob" for oid ob
  proof (cases "oid = ?rid")
    case True
    with that show ?thesis by simp
  next
    case False
    with that have "knownStubIds s oid = Some ob" by simp
    with inv obtain st where st: "knownStubs s ob = Some st" "stub_rpcId st = oid"
      unfolding stubs_inv_def by blast
    with k have "ob \<noteq> obj" by auto
    with st show ?thesis by simp
  qed
  have c4: "heap ?s' r = plain_object" if "nextObj ?s' \<le> r" for r
    using that lt inv by (simp add: stubs_inv_def)
  show ?thesis
    unfolding stubs_inv_def using c1 c2 c3 c4 by blast
qed

lemma addStub_stubs_inv: "stubs_inv s \<Longrightarrow> stubs_inv (snd (addStub s obj))"
proof -
  assume inv: "stubs_inv s"
  show ?thesis
  proof (cases "knownStubs s obj")
    case None
    show ?thesis
    proof (cases "rpcMethodsField (heap s obj)")
      case n: None
      with None inv show ?thesis by (simp add: addStub_invalid)
    next
      case (Some ms)
      show ?thesis
        unfolding addStub_new [OF None Some] snd_conv sendMetadata_stubs_inv
        by (rule stubs_inv_register [OF inv None Some])
    qed
  next
    case (Some stub)
    show ?thesis
    proof (cases "knownStubIds s (stub_rpcId stub)")
      case None
      show ?thesis
        unfolding addStub_freed [OF Some None] snd_conv sendMetadata_stubs_inv
        by (rule stubs_inv_install [OF inv Some])
    next
      case s: (Some a)
      with Some inv show ?thesis by (simp add: addStub_live)
    qed
  qed
qed

lemma marshalArgument_stubs_inv: "stubs_inv s \<Longrightarrow> stubs_inv (snd (marshalArgument s v))"
  using marshal_rel(1) [of "\<lambda>s s'. stubs_inv s \<longrightarrow> stubs_inv s'" s v]
  by (simp add: addStub_stubs_inv)

lemma marshal_all_stubs_inv: "stubs_inv s \<Longrightarrow> stubs_inv (snd (marshal_all s vs))"
  using marshal_rel(2) [of "\<lambda>s s'. stubs_inv s \<longrightarrow> stubs_inv s'" s vs]
  by (simp add: addStub_stubs_inv)

lemma stubs_inv_init: "stubs_inv (rpc_socket_init sid)"
  by (simp add: stubs_inv_def rpc_socket_init_def)

lemma socket_write_stubs_inv: "stubs_inv (socket_write s m) = stubs_inv s"
  by (rule stubs_inv_frame) (simp_all add: socket_write_def)

lemma emit_stubs_inv: "stubs_inv (emit s ev) = stubs_inv s"
  by (rule stubs_inv_frame) (simp_all add: emit_def)

lemma call_stubs_inv: "stubs_inv s \<Longrightarrow> stubs_inv (snd (call s obj meth args))"
proof -
  assume inv: "stubs_inv s"
  obtain r s1 where m: "marshal_all (s\<lparr>inCall := True\<rparr>) args = (r, s1)"
    by (cases "marshal_all (s\<lparr>inCall := True\<rparr>) args")
  have "stubs_inv (s\<lparr>inCall := True\<rparr>)"
    using inv stubs_inv_frame [of "s\<lparr>inCall := True\<rparr>" s] by simp
  then have inv1: "stubs_inv s1"
    using marshal_all_stubs_inv [of "s\<lparr>inCall := True\<rparr>" args] m by simp
  show ?thesis
  proof (cases "inCall s \<or> ended s")
    case True
    with inv show ?thesis by (auto simp: call_def)
  next
    case False
    then have c: "\<not> inCall s" "\<not> ended s" by simp_all
    show ?thesis
    proof (cases r)
      case (Inl e)
      with m c inv1 show ?thesis by (simp add: call_def)
    next
      case (Inr marshalled)
      have "stubs_inv (snd (call s obj meth args)) = stubs_inv s1"
        unfolding call_success [OF c m [unfolded Inr]] snd_conv
        by (rule stubs_inv_frame) simp_all
      with inv1 show ?thesis by simp
    qed
  qed
qed

lemma freeProxy_stubs_inv: "stubs_inv (freeProxy s ident) = stubs_inv s"
  by (rule stubs_inv_frame) (simp_all add: freeProxy_def socket_write_def Let_def split: objid.splits)

lemma stubs_inv_delete:
  assumes "stubs_inv s" and "knownStubIds s' = (knownStubIds s)(oid := None)"
    and "knownStubs s' = knownStubs s" and "heap s' = heap s" and "nextObj s' = nextObj s"
    and "stubCnt s' = stubCnt s" and "socketId s' = socketId s"
  shows "stubs_inv s'"
  using assms unfolding stubs_inv_def by (auto split: if_splits)

lemma stubs_inv_delete_all:
  "stubs_inv s \<Longrightarrow>
   stubs_inv (s\<lparr>knownStubIds := fold (\<lambda>i m. m(i := None)) ids (knownStubIds s)\<rparr>)"
proof (induction ids arbitrary: s)
  case Nil
  then show ?case by simp
next
  case (Cons i ids)
  have "stubs_inv (s\<lparr>knownStubIds := (knownStubIds s)(i := None)\<rparr>)"
    by (rule stubs_inv_delete [OF Cons.prems]) simp_all
  from Cons.IH [OF this] show ?case by simp
qed

lemma object_free_stubs_inv: "stubs_inv s \<Longrightarrow> stubs_inv (object_free s obj)"
proof -
  assume inv: "stubs_inv s"
  have "stubs_inv (proxy_free s obj ms)" for ms
    by (rule proxy_free_rel) (simp_all add: inv freeProxy_stubs_inv call_stubs_inv)
  with inv show ?thesis by (simp add: object_free_def stubs_inv_delete_all split: option.splits)
qed

lemma stubs_inv_alloc:
  assumes "stubs_inv s"
  shows "stubs_inv (s\<lparr>heap := (heap s)(nextObj s := ob), nextObj := nextObj s + 1\<rparr>)"
  using assms unfolding stubs_inv_def by (auto intro: less_SucI)

lemma handleCall_catch_stubs_inv: "stubs_inv (handleCall_catch s ident e) = stubs_inv s"
  by (rule stubs_inv_frame) (simp_all add: handleCall_catch_def socket_write_def)

lemma handleReply_stubs_inv:
  "stubs_inv (handleReply s ident error msg stack code reply) = stubs_inv s"
  by (rule stubs_inv_frame)
    (simp_all add: handleReply_def Let_def reject_def resolve_def
      split: msgid.splits option.splits sum.splits)

lemma handleMessage_stubs_inv: "stubs_inv s \<Longrightarrow> stubs_inv (handleMessage s msg)"
proof (cases msg)
  case (NewObjectMsg obj ms)
  assume inv: "stubs_inv s"
  have "stubs_inv (s\<lparr>heap := (heap s)(nextObj s := proxy_object obj ms),
                      nextObj := nextObj s + 1\<rparr>)"
    by (rule stubs_inv_alloc [OF inv])
  moreover have "stubs_inv (s\<lparr>heap := (heap s)(nextObj s := proxy_object obj ms),
                      nextObj := nextObj s + 1,
                      knownProxies := (knownProxies s)(obj \<mapsto> nextObj s)\<rparr>)
      = stubs_inv (s\<lparr>heap := (heap s)(nextObj s := proxy_object obj ms),
                      nextObj := nextObj s + 1\<rparr>)"
    by (rule stubs_inv_frame) simp_all
  ultimately show ?thesis using NewObjectMsg inv by (simp add: new_proxy_def Let_def)
next
  case (CallMsg ident obj meth params)
  then show "stubs_inv s \<Longrightarrow> stubs_inv (handleMessage s msg)"
    by (simp add: handleCall_def handleCall_catch_stubs_inv split: call_dispatch.splits)
next
  case (ReplyMsg ident error m stack code reply)
  then show "stubs_inv s \<Longrightarrow> stubs_inv (handleMessage s msg)"
    by (simp add: handleReply_stubs_inv)
next
  case (FreeMsg ident)
  assume inv: "stubs_inv s"
  have a: "stubs_inv (s\<lparr>knownStubIds := (knownStubIds s)(ident := None)\<rparr>)"
    by (rule stubs_inv_delete [OF inv]) simp_all
  have b: "stubs_inv (s\<lparr>knownProxies := (knownProxies s)(ident := None)\<rparr>) = stubs_inv s"
    by (rule stubs_inv_frame) simp_all
  from FreeMsg inv a b show ?thesis by (simp add: handleFree_def)
next
  case (OtherMsg c)
  then show "stubs_inv s \<Longrightarrow> stubs_inv (handleMessage s msg)" by simp
qed

lemma handleCall_return_stubs_inv: "stubs_inv s \<Longrightarrow> stubs_inv (handleCall_return s ident v)"
proof -
  assume inv: "stubs_inv s"
  obtain r s1 where m: "marshalArgument s v = (r, s1)" by (cases "marshalArgument s v")
  with inv have "stubs_inv s1" using marshalArgument_stubs_inv [of s v] by simp
  with m inv show ?thesis
    by (cases r)
      (simp_all add: handleCall_return_def handleCall_catch_stubs_inv socket_write_stubs_inv)
qed

lemma failAllCalls_stubs_inv: "stubs_inv (failAllCalls s) = stubs_inv s"
  by (rule stubs_inv_frame) (simp_all add: failAllCalls_eq)

lemma step_stubs_inv: "stubs_inv s \<Longrightarrow> stubs_inv (step s op)"
proof (cases op)
  case (OpSocketClose h)
  have "stubs_inv (on_close s h) = stubs_inv s"
    by (rule stubs_inv_frame) (simp_all add: on_close_def emit_def)
  with OpSocketClose show "stubs_inv s \<Longrightarrow> stubs_inv (step s op)" by simp
next
  case (OpNewObject ob)
  then show "stubs_inv s \<Longrightarrow> stubs_inv (step s op)"
    using stubs_inv_alloc [of s "ob\<lparr>proxyMethods := None\<rparr>"] by (simp add: new_object_def)
qed (simp_all add: addStub_stubs_inv call_stubs_inv freeProxy_stubs_inv object_free_stubs_inv
      handleMessage_stubs_inv handleCall_return_stubs_inv handleCall_catch_stubs_inv
      on_error_def on_end_def emit_stubs_inv failAllCalls_stubs_inv)

lemma run_stubs_inv: "stubs_inv s \<Longrightarrow> stubs_inv (run s ops)"
  unfolding run_def by (induction ops arbitrary: s) (simp_all add: step_stubs_inv)

lemma reachable_stubs_inv: "stubs_inv (run (rpc_socket_init sid) ops)"
  by (rule run_stubs_inv [OF stubs_inv_init])

section \<open>The proxies of the registry\<close>

lemma get_prefix: "(take 4 m = ''get '' \<and> drop 4 m = name) = (m = ''get '' @ name)"
proof
  assume "take 4 m = ''get '' \<and> drop 4 m = name"
  with append_take_drop_id [of 4 m] show "m = ''get '' @ name" by simp
next
  assume "m = ''get '' @ name"
  then show "take 4 m = ''get '' \<and> drop 4 m = name" by simp
qed

lemma define_method_own:
  assumes "take 4 name \<noteq> ''get ''"
  shows "(define_method name m d = PropOwn) = (d = PropOwn \<and> m \<noteq> name \<and> m \<noteq> ''get '' @ name)"
proof (cases "take 4 m = ''get ''")
  case True
  with assms have "m \<noteq> name" by auto
  with True get_prefix [of m name] show ?thesis by (auto simp: define_method_def)
next
  case False
  then have "m \<noteq> ''get '' @ name" by auto
  with False show ?thesis by (auto simp: define_method_def)
qed

lemma fold_define_own:
  assumes "take 4 name \<noteq> ''get ''"
  shows "(fold (define_method name) ms d = PropOwn)
           = (d = PropOwn \<and> name \<notin> set ms \<and> ''get '' @ name \<notin> set ms)"
  by (induction ms arbitrary: d) (auto simp: define_method_own [OF assms])

lemma proxy_prop_own:
  assumes "take 4 name \<noteq> ''get ''"
  shows "(proxy_prop name ms = PropOwn) = (name \<notin> set ms \<and> ''get '' @ name \<notin> set ms)"
  unfolding proxy_prop_def by (simp add: fold_define_own [OF assms])

text \<open>
  The constructor leaves the oid in \<^verbatim>\<open>$rpcId\<close> exactly when no method is named
  \<^verbatim>\<open>$rpcId\<close> or \<^verbatim>\<open>get $rpcId\<close>.
\<close>

lemma proxy_object_rpcId:
  "(rpcIdField (proxy_object oid ms) = RpcIdIs (OidStr oid))
     = (''$rpcId'' \<notin> set ms \<and> ''get $rpcId'' \<notin> set ms)"
proof -
  have "(proxy_prop ''$rpcId'' ms = PropOwn)
          = (''$rpcId'' \<notin> set ms \<and> ''get '' @ ''$rpcId'' \<notin> set ms)"
    by (rule proxy_prop_own) simp
  then show ?thesis by (cases "proxy_prop ''$rpcId'' ms") (simp_all add: proxy_object_def)
qed

lemma proxy_object_rpcId_cases:
  "rpcIdField (proxy_object oid ms) = RpcIdIs (OidStr oid)
   \<or> rpcIdField (proxy_object oid ms) = RpcIdIs (OidFun ''$rpcId'')
   \<or> rpcIdField (proxy_object oid ms) = RpcIdGetter"
  by (simp add: proxy_object_def split: prop_def.splits)

lemma proxy_sub_refl: "proxy_sub s s"
  by (simp add: proxy_sub_def)

lemma proxy_sub_trans: "proxy_sub s t \<Longrightarrow> proxy_sub t u \<Longrightarrow> proxy_sub s u"
  by (simp add: proxy_sub_def)

lemma proxies_inv_sub: "proxies_inv s \<Longrightarrow> proxy_sub s t \<Longrightarrow> proxies_inv t"
  unfolding proxies_inv_def proxy_sub_def by fastforce

lemma addStub_proxy_sub: "proxy_sub s (snd (addStub s obj))"
  by (simp add: proxy_sub_def addStub_def sendMetadata_def socket_write_def make_free_def
      Let_def split: option.splits)

lemma marshalArgument_proxy_sub: "proxy_sub s (snd (marshalArgument s v))"
  by (rule marshal_rel(1) [of proxy_sub, OF proxy_sub_refl proxy_sub_trans addStub_proxy_sub])

lemma marshal_all_proxy_sub: "proxy_sub s (snd (marshal_all s vs))"
  by (rule marshal_rel(2) [of proxy_sub, OF proxy_sub_refl proxy_sub_trans addStub_proxy_sub])

lemma call_proxy_sub: "proxy_sub s (snd (call s obj meth args))"
proof (cases "inCall s \<or> ended s")
  case True
  then show ?thesis by (auto simp: call_def proxy_sub_refl)
next
  case False
  then have c: "\<not> inCall s" "\<not> ended s" by simp_all
  obtain r s1 where m: "marshal_all (s\<lparr>inCall := True\<rparr>) args = (r, s1)"
    by (cases "marshal_all (s\<lparr>inCall := True\<rparr>) args")
  have "proxy_sub (s\<lparr>inCall := True\<rparr>) s1"
    using marshal_all_proxy_sub [of "s\<lparr>inCall := True\<rparr>" args] m by simp
  then have f: "proxy_sub s s1" by (simp add: proxy_sub_def)
  show ?thesis
  proof (cases r)
    case (Inl e)
    with m c f show ?thesis by (simp add: call_def)
  next
    case (Inr marshalled)
    show ?thesis
      unfolding call_success [OF c m [unfolded Inr]] snd_conv
      using f by (simp add: proxy_sub_def)
  qed
qed

lemma freeProxy_proxy_sub: "proxy_sub s (freeProxy s ident)"
  by (simp add: proxy_sub_def freeProxy_def socket_write_def Let_def split: objid.splits)

lemma object_free_proxy_sub: "proxy_sub s (object_free s obj)"
proof -
  have "proxy_sub s (proxy_free s obj ms)" for ms
    by (rule proxy_free_rel) (simp_all add: proxy_sub_refl freeProxy_proxy_sub call_proxy_sub)
  then show ?thesis by (simp add: object_free_def proxy_sub_def split: option.splits)
qed

lemma handleCall_catch_proxy_sub: "proxy_sub s (handleCall_catch s ident e)"
  by (simp add: proxy_sub_def handleCall_catch_def socket_write_def)

lemma handleCall_return_proxy_sub: "proxy_sub s (handleCall_return s ident v)"
proof -
  obtain r s1 where m: "marshalArgument s v = (r, s1)" by (cases "marshalArgument s v")
  have f: "proxy_sub s s1" using marshalArgument_proxy_sub [of s v] m by simp
  have "proxy_sub s1 (handleCall_catch s1 ident e)" for e by (rule handleCall_catch_proxy_sub)
  with f have "proxy_sub s (handleCall_catch s1 ident e)" for e by (rule proxy_sub_trans)
  moreover have "proxy_sub s (socket_write s1 w)" for w
    using f by (simp add: proxy_sub_def socket_write_def)
  ultimately show ?thesis
    using m by (cases r) (simp_all add: handleCall_return_def proxy_sub_refl)
qed

lemma handleReply_proxy_sub: "proxy_sub s (handleReply s ident error msg stack code reply)"
  by (simp add: proxy_sub_def handleReply_def Let_def reject_def resolve_def
      split: msgid.splits option.splits sum.splits)

lemma handleFree_proxy_sub: "proxy_sub s (handleFree s ident)"
  by (simp add: proxy_sub_def handleFree_def)

lemma new_proxy_proxies_inv:
  assumes "proxies_inv s"
  shows "proxies_inv
           (s\<lparr>heap := (heap s)(nextObj s := proxy_object oid ms), nextObj := nextObj s + 1,
               knownProxies := (knownProxies s)(oid \<mapsto> nextObj s)\<rparr>)"
  using assms proxy_object_rpcId_cases [of oid ms]
  unfolding proxies_inv_def by (auto simp: proxy_object_def intro: less_SucI)

lemma new_object_proxies_inv: "proxies_inv s \<Longrightarrow> proxies_inv (new_object s ob)"
  unfolding proxies_inv_def new_object_def by (auto intro: less_SucI)

lemma handleMessage_proxies_inv: "proxies_inv s \<Longrightarrow> proxies_inv (handleMessage s msg)"
proof (cases msg)
  case (NewObjectMsg oid ms)
  then show "proxies_inv s \<Longrightarrow> proxies_inv (handleMessage s msg)"
    using new_proxy_proxies_inv [of s oid ms] by (simp add: new_proxy_def Let_def)
next
  case (CallMsg ident obj meth params)
  assume inv: "proxies_inv s"
  have "proxy_sub s (handleCall s ident obj meth params)"
    by (simp add: handleCall_def handleCall_catch_proxy_sub proxy_sub_refl
        split: call_dispatch.splits)
  with inv CallMsg show ?thesis by (simp add: proxies_inv_sub)
next
  case (ReplyMsg ident error m stack code reply)
  then show "proxies_inv s \<Longrightarrow> proxies_inv (handleMessage s msg)"
    using proxies_inv_sub [OF _ handleReply_proxy_sub] by simp
next
  case (FreeMsg ident)
  then show "proxies_inv s \<Longrightarrow> proxies_inv (handleMessage s msg)"
    using proxies_inv_sub [OF _ handleFree_proxy_sub] by simp
next
  case (OtherMsg c)
  then show "proxies_inv s \<Longrightarrow> proxies_inv (handleMessage s msg)" by simp
qed

lemma step_proxies_inv: "proxies_inv s \<Longrightarrow> proxies_inv (step s op)"
proof (cases op)
  case (OpData msg)
  then show "proxies_inv s \<Longrightarrow> proxies_inv (step s op)" by (simp add: handleMessage_proxies_inv)
next
  case (OpNewObject ob)
  then show "proxies_inv s \<Longrightarrow> proxies_inv (step s op)" by (simp add: new_object_proxies_inv)
next
  case (OpSocketError e)
  have "proxy_sub s (on_error s e)"
    by (simp add: proxy_sub_def on_error_def emit_def failAllCalls_eq)
  with OpSocketError show "proxies_inv s \<Longrightarrow> proxies_inv (step s op)"
    by (simp add: proxies_inv_sub)
next
  case OpSocketEnd
  have "proxy_sub s (on_end s)" by (simp add: proxy_sub_def on_end_def emit_def)
  with OpSocketEnd show "proxies_inv s \<Longrightarrow> proxies_inv (step s op)"
    by (simp add: proxies_inv_sub)
next
  case (OpSocketClose h)
  have "proxy_sub s (on_close s h)" by (simp add: proxy_sub_def on_close_def emit_def)
  with OpSocketClose show "proxies_inv s \<Longrightarrow> proxies_inv (step s op)"
    by (simp add: proxies_inv_sub)
qed (simp_all add: proxies_inv_sub [OF _ addStub_proxy_sub] proxies_inv_sub [OF _ call_proxy_sub]
      proxies_inv_sub [OF _ freeProxy_proxy_sub] proxies_inv_sub [OF _ object_free_proxy_sub]
      proxies_inv_sub [OF _ handleCall_return_proxy_sub]
      proxies_inv_sub [OF _ handleCall_catch_proxy_sub])

lemma run_proxies_inv: "proxies_inv s \<Longrightarrow> proxies_inv (run s ops)"
  unfolding run_def by (induction ops arbitrary: s) (simp_all add: step_proxies_inv)

lemma reachable_proxies_inv: "proxies_inv (run (rpc_socket_init sid) ops)"
  by (rule run_proxies_inv) (simp add: proxies_inv_def rpc_socket_init_def plain_object_def)

text \<open>
  On an endpoint reached from a fresh one: the \<^verbatim>\<open>$rpcId\<close> of a proxy is never undefined,
  and a proxy of the registry is a value of the round trip exactly when none of its methods
  is named \<^verbatim>\<open>$rpcId\<close> or \<^verbatim>\<open>get $rpcId\<close>, and then its \<^verbatim>\<open>$rpcId\<close> holds the oid it is
  registered under.
\<close>

lemma proxy_rpcId_defined:
  assumes "s = run (rpc_socket_init sid) ops" and "proxyMethods (heap s r) = Some ms"
  shows "rpcIdField (heap s r) \<noteq> RpcIdAbsent"
  using reachable_proxies_inv [of sid ops] assms unfolding proxies_inv_def by blast

lemma registered_proxy_roundtrip:
  assumes "s = run (rpc_socket_init sid) ops" and "knownProxies s oid = Some p"
    and "proxyMethods (heap s p) = Some ms"
  shows "roundtrip_value s (VObj p) = (''$rpcId'' \<notin> set ms \<and> ''get $rpcId'' \<notin> set ms)"
    and "''$rpcId'' \<notin> set ms \<and> ''get $rpcId'' \<notin> set ms
         \<Longrightarrow> rpcIdField (heap s p) = RpcIdIs (OidStr oid)"
proof -
  from reachable_proxies_inv [of sid ops] assms
  have e: "rpcIdField (heap s p) = rpcIdField (proxy_object oid ms)"
    unfolding proxies_inv_def by fastforce
  show "''$rpcId'' \<notin> set ms \<and> ''get $rpcId'' \<notin> set ms
         \<Longrightarrow> rpcIdField (heap s p) = RpcIdIs (OidStr oid)"
    using e proxy_object_rpcId [of oid ms] by simp
  show "roundtrip_value s (VObj p) = (''$rpcId'' \<notin> set ms \<and> ''get $rpcId'' \<notin> set ms)"
    using e proxy_object_rpcId [of oid ms] proxy_object_rpcId_cases [of oid ms] assms(2)
    by auto
qed

section \<open>Outbound calls on a closed or busy endpoint\<close>

text \<open>
  C5. On an endpoint whose closed flag is set and which is not marshalling, \<open>call\<close>
  returns a promise rejected with the closed-endpoint error, whose code is
  \<open>ERR_SOCKET_CLOSED\<close>, and the endpoint is left as it was: nothing is written to the
  transport, the pending-call table and the call id counter are unchanged.
\<close>

theorem call_closed_endpoint:
  assumes "ended s" and "\<not> inCall s"
  shows "call s obj method args = (Inr (RejectedPromise SocketClosedError), s)
         \<and> err_code SocketClosedError = Some (CodeStr ''ERR_SOCKET_CLOSED'')"
  using assms by (simp add: call_def SocketClosedError_def)

theorem call_closed_endpoint_witness:
  "ended ((rpc_socket_init ''h-1:0:'')\<lparr>ended := True\<rparr>)
   \<and> \<not> inCall ((rpc_socket_init ''h-1:0:'')\<lparr>ended := True\<rparr>)
   \<and> call ((rpc_socket_init ''h-1:0:'')\<lparr>ended := True\<rparr>) (OidStr ''p:0'') ''frobnicate'' [VStr ''x'']
       = (Inr (RejectedPromise SocketClosedError), (rpc_socket_init ''h-1:0:'')\<lparr>ended := True\<rparr>)"
  using call_closed_endpoint [of "(rpc_socket_init ''h-1:0:'')\<lparr>ended := True\<rparr>"
      "OidStr ''p:0''" "''frobnicate''" "[VStr ''x'']"]
  by (simp add: rpc_socket_init_def)

text \<open>
  C6. On an endpoint whose \<open>inCall\<close> flag is set, \<open>call\<close> throws a \<open>TypeError\<close>: it
  returns no promise and the endpoint is left as it was.
\<close>

theorem call_reentrant:
  assumes "inCall s"
  shows "call s obj method args = (Inl (TypeError ''Re-entrant calls are not supported''), s)"
  using assms by (simp add: call_def)

theorem call_reentrant_witness:
  "inCall ((rpc_socket_init ''h-1:0:'')\<lparr>inCall := True\<rparr>)
   \<and> call ((rpc_socket_init ''h-1:0:'')\<lparr>inCall := True\<rparr>) (OidStr ''p:0'') ''frobnicate'' [VStr ''x'']
       = (Inl (TypeError ''Re-entrant calls are not supported''),
          (rpc_socket_init ''h-1:0:'')\<lparr>inCall := True\<rparr>)"
  using call_reentrant [of "(rpc_socket_init ''h-1:0:'')\<lparr>inCall := True\<rparr>"
      "OidStr ''p:0''" "''frobnicate''" "[VStr ''x'']"]
  by (simp add: rpc_socket_init_def)

section \<open>A call whose arguments cannot be marshalled\<close>

text \<open>
  C9. When marshalling the arguments of an outbound call throws, \<open>call\<close> throws the same
  error to its caller; nothing has been written to the transport (neither a call frame nor
  a new-object frame), the call id counter has not moved and the pending-call table is
  unchanged. An argument that carries an oid unknown to the proxy registry is such a case
  (\<open>marshal_foreign_oid\<close>); the example is a proxy of another socket, refused with the
  invalid-object error of code \<open>ENXIO\<close>.
\<close>

theorem call_marshal_error:
  assumes "\<not> inCall s" and "\<not> ended s"
    and "marshal_all (s\<lparr>inCall := True\<rparr>) args = (Inl e, s1)"
  shows "call s obj method args = (Inl e, s1) \<and> wire s1 = wire s \<and> callId s1 = callId s
         \<and> pendingCalls s1 = pendingCalls s"
  using assms marshal_all_frame [of "s\<lparr>inCall := True\<rparr>" args]
  by (simp add: call_def marshal_frame_def)

theorem call_marshal_error_witness:
  "\<not> inCall ex_foreign \<and> \<not> ended ex_foreign
   \<and> call ex_foreign (OidStr ''h-2:0:0'') ''frobnicate'' [VObj 0] =
       (Inl (InvalidObjectError (OidStr ''h-1:7:0'')
               ''Invalid object h-1:7:0, likely a proxy from a different socket''),
        ex_foreign\<lparr>inCall := True\<rparr>)
   \<and> err_code (InvalidObjectError (OidStr ''h-1:7:0'')
                 ''Invalid object h-1:7:0, likely a proxy from a different socket'')
       = Some (CodeStr ''ENXIO'')
   \<and> wire (ex_foreign\<lparr>inCall := True\<rparr>) = wire ex_foreign
   \<and> callId (ex_foreign\<lparr>inCall := True\<rparr>) = callId ex_foreign
   \<and> pendingCalls (ex_foreign\<lparr>inCall := True\<rparr>) = pendingCalls ex_foreign"
proof -
  have a: "\<not> inCall ex_foreign" and b: "\<not> ended ex_foreign"
    by (simp_all add: ex_foreign_def new_object_def rpc_socket_init_def)
  have c: "marshal_all (ex_foreign\<lparr>inCall := True\<rparr>) [VObj 0] =
             (Inl (InvalidObjectError (OidStr ''h-1:7:0'')
                     ''Invalid object h-1:7:0, likely a proxy from a different socket''),
              ex_foreign\<lparr>inCall := True\<rparr>)"
    by (simp add: ex_foreign_def new_object_def rpc_socket_init_def proxy_object_def
        proxy_prop_def define_method_def)
  show ?thesis
    using a b call_marshal_error [OF a b c, of "OidStr ''h-2:0:0''" "''frobnicate''"]
    by (simp add: InvalidObjectError_def)
qed

text \<open>
  C10. When marshalling an argument of \<open>call\<close> throws, the endpoint is left with \<open>inCall\<close>
  set: \<open>call\<close> resets the flag only after marshalling has returned. No operation of the
  endpoint resets it, so after any further operations every \<open>call\<close>, with any arguments,
  throws the re-entrancy \<open>TypeError\<close> and does nothing else.
\<close>

theorem call_marshal_error_sticks:
  assumes "\<not> inCall s" and "\<not> ended s"
    and "marshal_all (s\<lparr>inCall := True\<rparr>) args = (Inl e, s1)"
  shows "snd (call s obj method args) = s1 \<and> inCall s1
         \<and> (\<forall>ops obj' method' args'.
               call (run s1 ops) obj' method' args'
                 = (Inl (TypeError ''Re-entrant calls are not supported''), run s1 ops))"
proof -
  have a: "snd (call s obj method args) = s1" using assms by (simp add: call_def)
  have b: "inCall s1"
    using assms(3) marshal_all_frame [of "s\<lparr>inCall := True\<rparr>" args]
    by (simp add: marshal_frame_def)
  have "\<And>ops. inCall (run s1 ops)" using b by (rule run_inCall)
  then show ?thesis using a b by (simp add: call_def)
qed

theorem call_marshal_error_sticks_witness:
  "snd (call ex_foreign (OidStr ''h-2:0:0'') ''frobnicate'' [VObj 0]) = ex_foreign\<lparr>inCall := True\<rparr>
   \<and> inCall (ex_foreign\<lparr>inCall := True\<rparr>)
   \<and> call (run (ex_foreign\<lparr>inCall := True\<rparr>) [OpData (FreeMsg ''h-1:0:0''), OpSocketEnd])
        (OidStr ''h-2:0:0'') ''frobnicate'' []
       = (Inl (TypeError ''Re-entrant calls are not supported''),
          run (ex_foreign\<lparr>inCall := True\<rparr>) [OpData (FreeMsg ''h-1:0:0''), OpSocketEnd])"
proof -
  have a: "\<not> inCall ex_foreign" and b: "\<not> ended ex_foreign"
    by (simp_all add: ex_foreign_def new_object_def rpc_socket_init_def)
  have c: "marshal_all (ex_foreign\<lparr>inCall := True\<rparr>) [VObj 0] =
             (Inl (InvalidObjectError (OidStr ''h-1:7:0'')
                     ''Invalid object h-1:7:0, likely a proxy from a different socket''),
              ex_foreign\<lparr>inCall := True\<rparr>)"
    by (simp add: ex_foreign_def new_object_def rpc_socket_init_def proxy_object_def
        proxy_prop_def define_method_def)
  show ?thesis
    using call_marshal_error_sticks [OF a b c, of "OidStr ''h-2:0:0''" "''frobnicate''"]
    by simp
qed

section \<open>Pending calls and the closure of the endpoint\<close>

lemma pending_inv_frame:
  assumes "pendingCalls s' = pendingCalls s" and "settled s' = settled s" and "callId s' = callId s"
  shows "pending_inv s' = pending_inv s"
  using assms by (simp add: pending_inv_def)

lemma marshal_frame_pending: "marshal_frame s s' \<Longrightarrow> pending_inv s' = pending_inv s"
  by (rule pending_inv_frame) (simp_all add: marshal_frame_def)

lemma set_update_fresh: "k \<notin> fst ` set al \<Longrightarrow> AList.update k v al = al @ [(k, v)]"
  by (induction al) auto

lemma pending_inv_init: "pending_inv (rpc_socket_init sid)"
  by (simp add: pending_inv_def rpc_socket_init_def)

lemma pending_inv_push:
  assumes "pending_inv s" and "pendingCalls s' = pendingCalls s @ [(callId s, callId s)]"
    and "settled s' = settled s" and "callId s' = callId s + 1"
  shows "pending_inv s'"
  using assms by (fastforce simp: pending_inv_def)

lemma call_pending_inv: "pending_inv s \<Longrightarrow> pending_inv (snd (call s obj method args))"
proof -
  assume inv: "pending_inv s"
  obtain r s1 where m: "marshal_all (s\<lparr>inCall := True\<rparr>) args = (r, s1)"
    by (cases "marshal_all (s\<lparr>inCall := True\<rparr>) args")
  have f: "marshal_frame (s\<lparr>inCall := True\<rparr>) s1"
    using marshal_all_frame [of "s\<lparr>inCall := True\<rparr>" args] m by simp
  have inv1: "pending_inv s1"
    using inv marshal_frame_pending [OF f] pending_inv_frame [of "s\<lparr>inCall := True\<rparr>" s] by simp
  have fresh: "callId s1 \<notin> fst ` set (pendingCalls s1)"
    using inv1 by (fastforce simp: pending_inv_def)
  show ?thesis
  proof (cases r)
    case (Inl e)
    with m inv inv1 show ?thesis by (simp add: call_def)
  next
    case (Inr marshalled)
    show ?thesis
    proof (cases "inCall s \<or> ended s")
      case True
      with inv show ?thesis by (auto simp: call_def)
    next
      case False
      then have c: "\<not> inCall s" "\<not> ended s" by simp_all
      show ?thesis
        unfolding call_success [OF c m [unfolded Inr]]
        by (rule pending_inv_push [OF inv1]) (simp_all add: set_update_fresh [OF fresh])
    qed
  qed
qed

lemma pending_inv_settle:
  assumes inv: "pending_inv s" and m: "map_of (pendingCalls s) n = Some r"
    and p: "pendingCalls s' = AList.delete n (pendingCalls s)"
    and st: "settled s' = settled s @ [(r, out)]" and c: "callId s' = callId s"
  shows "pending_inv s'"
proof -
  from m have mem: "(n, r) \<in> set (pendingCalls s)" by (rule map_of_SomeD)
  with inv have rn: "r = n" and lt: "n < callId s" by (auto simp: pending_inv_def)
  have sub: "\<And>i q. (i, q) \<in> set (pendingCalls s') \<Longrightarrow> (i, q) \<in> set (pendingCalls s) \<and> i \<noteq> n"
    by (auto simp: p AList.delete_eq)
  have d: "distinct (map fst (pendingCalls s'))"
    using inv by (simp add: p AList.distinct_delete pending_inv_def)
  have a1: "\<And>i q. (i, q) \<in> set (pendingCalls s') \<Longrightarrow> q = i \<and> i < callId s'"
    using inv sub c by (fastforce simp: pending_inv_def)
  have a2: "\<And>i q o'. (i, q) \<in> set (pendingCalls s') \<Longrightarrow> (q, o') \<notin> set (settled s')"
  proof -
    fix i q o' assume iq: "(i, q) \<in> set (pendingCalls s')"
    with sub have old: "(i, q) \<in> set (pendingCalls s)" and ne: "i \<noteq> n" by auto
    from inv old have "q = i" and "(q, o') \<notin> set (settled s)" by (auto simp: pending_inv_def)
    with ne rn show "(q, o') \<notin> set (settled s')" by (simp add: st)
  qed
  have a3: "\<And>q o'. (q, o') \<in> set (settled s') \<Longrightarrow> q < callId s'"
    using inv lt rn by (auto simp: st c pending_inv_def)
  from d a1 a2 a3 show ?thesis unfolding pending_inv_def by blast
qed

lemma handleReply_pending_inv:
  assumes inv: "pending_inv s"
  shows "pending_inv (handleReply s ident error msg stack code reply)"
proof (cases ident)
  case (IdNum n)
  show ?thesis
  proof (cases "map_of (pendingCalls s) n")
    case None
    with IdNum inv show ?thesis by (simp add: handleReply_def)
  next
    case (Some r)
    have "\<exists>out. pendingCalls (handleReply s ident error msg stack code reply)
                  = AList.delete n (pendingCalls s)
          \<and> settled (handleReply s ident error msg stack code reply) = settled s @ [(r, out)]
          \<and> callId (handleReply s ident error msg stack code reply) = callId s"
      using IdNum Some
      by (auto simp: handleReply_def Let_def reject_def resolve_def split: sum.splits)
    then show ?thesis using pending_inv_settle [OF inv Some] by blast
  qed
qed (use inv in \<open>simp_all add: handleReply_def\<close>)

lemma failAllCalls_pending_inv: "pending_inv s \<Longrightarrow> pending_inv (failAllCalls s)"
  by (fastforce simp: failAllCalls_eq pending_inv_def)

lemma emit_pending: "pending_inv (emit s ev) = pending_inv s"
  by (rule pending_inv_frame) (simp_all add: emit_def)

lemma freeProxy_pending: "pending_inv (freeProxy s ident) = pending_inv s"
  by (rule pending_inv_frame)
    (simp_all add: freeProxy_def socket_write_def Let_def split: objid.splits)

lemma delete_ids_pending:
  "pending_inv (s\<lparr>knownStubIds := m\<rparr>) = pending_inv s"
  by (rule pending_inv_frame) simp_all

lemma object_free_pending: "pending_inv s \<Longrightarrow> pending_inv (object_free s obj)"
proof -
  assume inv: "pending_inv s"
  have "pending_inv (proxy_free s obj ms)" for ms
    by (rule proxy_free_rel) (simp_all add: inv freeProxy_pending call_pending_inv)
  with inv show ?thesis by (simp add: object_free_def delete_ids_pending split: option.splits)
qed

lemma new_object_pending: "pending_inv (new_object s ob) = pending_inv s"
  by (rule pending_inv_frame) (simp_all add: new_object_def)

lemma on_close_pending: "pending_inv (on_close s h) = pending_inv s"
  by (rule pending_inv_frame) (simp_all add: on_close_def emit_def)

lemma handleCall_catch_pending: "pending_inv (handleCall_catch s ident e) = pending_inv s"
  by (rule pending_inv_frame) (simp_all add: handleCall_catch_def socket_write_def)

lemma socket_write_pending: "pending_inv (socket_write s m) = pending_inv s"
  by (rule pending_inv_frame) (simp_all add: socket_write_def)

lemma handleCall_return_pending: "pending_inv (handleCall_return s ident v) = pending_inv s"
proof -
  obtain r s1 where m: "marshalArgument s v = (r, s1)" by (cases "marshalArgument s v")
  then have "pending_inv s1 = pending_inv s"
    using marshalArgument_frame [of s v] marshal_frame_pending by simp
  with m show ?thesis
    by (cases r)
      (simp_all add: handleCall_return_def handleCall_catch_pending socket_write_pending)
qed

lemma step_pending_inv: "pending_inv s \<Longrightarrow> pending_inv (step s op)"
proof (cases op)
  case (OpAddStub obj)
  then show "pending_inv s \<Longrightarrow> pending_inv (step s op)"
    using marshal_frame_pending [OF addStub_frame [of s obj]] by simp
next
  case (OpCall obj meth args)
  then show "pending_inv s \<Longrightarrow> pending_inv (step s op)" by (simp add: call_pending_inv)
next
  case (OpData msg)
  assume inv: "pending_inv s"
  show "pending_inv (step s op)"
  proof (cases msg)
    case (NewObjectMsg obj ms)
    have "pending_inv (handleMessage s (NewObjectMsg obj ms)) = pending_inv s"
      by (rule pending_inv_frame) (simp_all add: new_proxy_def Let_def)
    with NewObjectMsg OpData inv show ?thesis by simp
  next
    case (CallMsg ident obj meth params)
    with OpData inv show ?thesis
      by (simp add: handleCall_def handleCall_catch_pending split: call_dispatch.splits)
  next
    case (ReplyMsg ident error msg stack code reply)
    with OpData inv show ?thesis by (simp add: handleReply_pending_inv)
  next
    case (FreeMsg ident)
    have "pending_inv (handleMessage s (FreeMsg ident)) = pending_inv s"
      by (rule pending_inv_frame) (simp_all add: handleFree_def)
    with FreeMsg OpData inv show ?thesis by simp
  next
    case (OtherMsg c)
    with OpData inv show ?thesis by simp
  qed
next
  case (OpSocketError e)
  then show "pending_inv s \<Longrightarrow> pending_inv (step s op)"
    by (simp add: on_error_def emit_pending failAllCalls_pending_inv)
qed (simp_all add: freeProxy_pending object_free_pending handleCall_return_pending
      handleCall_catch_pending on_end_def on_close_pending emit_pending new_object_pending)

lemma run_pending_inv: "pending_inv s \<Longrightarrow> pending_inv (run s ops)"
  unfolding run_def by (induction ops arbitrary: s) (simp_all add: step_pending_inv)

lemma filter_one_settlement:
  assumes "distinct (map snd cs)" and "c \<in> set cs"
  shows "filter (\<lambda>x. fst x = snd c) (map (\<lambda>c. (snd c, v)) cs) = [(snd c, v)]"
  using assms
proof (induction cs)
  case Nil
  then show ?case by simp
next
  case (Cons a cs)
  show ?case
  proof (cases "a = c")
    case True
    have "snd c \<notin> snd ` set cs" using Cons.prems(1) True by simp
    then have "\<forall>x \<in> set cs. snd x \<noteq> snd c" by (metis imageI)
    then have "filter (\<lambda>x. fst x = snd c) (map (\<lambda>c. (snd c, v)) cs) = []"
      by (simp add: filter_empty_conv)
    with True show ?thesis by simp
  next
    case False
    with Cons.prems have "c \<in> set cs" and "snd a \<noteq> snd c" by (auto simp: image_iff)
    with Cons show ?thesis by simp
  qed
qed

text \<open>
  C4 (as amended). On an endpoint reached from a fresh one by any operations, when the
  transport emits \<open>error\<close>: the pending-call table is emptied, every call that was pending
  has exactly one settlement in the whole log, a rejection with the closed-endpoint error,
  whose code is \<open>ERR_SOCKET_CLOSED\<close>, and the transport error is emitted again after that.
  Nothing is stated for the transport's \<open>end\<close> and \<open>close\<close>, which settle no call.
\<close>

theorem error_rejects_pending:
  assumes "s = run (rpc_socket_init sid) ops"
  shows "pendingCalls (on_error s e) = []
         \<and> (\<forall>c \<in> set (pendingCalls s).
               filter (\<lambda>x. fst x = snd c) (settled (on_error s e))
                 = [(snd c, Rejected SocketClosedError)])
         \<and> err_code SocketClosedError = Some (CodeStr ''ERR_SOCKET_CLOSED'')
         \<and> emitted (on_error s e) = emitted s @ [ErrorEvent e]"
proof -
  have inv: "pending_inv s"
    unfolding assms by (rule run_pending_inv [OF pending_inv_init])
  have st: "settled (on_error s e)
      = settled s @ map (\<lambda>c. (snd c, Rejected SocketClosedError)) (pendingCalls s)"
    by (simp add: on_error_def emit_def failAllCalls_eq)
  have d: "distinct (map snd (pendingCalls s))"
  proof -
    have e: "map snd (pendingCalls s) = map fst (pendingCalls s)"
      using inv by (auto simp: pending_inv_def)
    show ?thesis unfolding e using inv by (simp add: pending_inv_def)
  qed
  have "filter (\<lambda>x. fst x = snd c) (settled (on_error s e)) = [(snd c, Rejected SocketClosedError)]"
    if c: "c \<in> set (pendingCalls s)" for c
  proof -
    have "filter (\<lambda>x. fst x = snd c) (settled s) = []"
      using inv c by (cases c) (fastforce simp: pending_inv_def filter_empty_conv)
    with filter_one_settlement [OF d c] st show ?thesis by simp
  qed
  then show ?thesis
    by (simp add: on_error_def emit_def failAllCalls_eq SocketClosedError_def)
qed

lemma ex_two_calls_eq:
  "pendingCalls ex_two_calls = [(0, 0), (1, 1)] \<and> settled ex_two_calls = []
   \<and> \<not> ended ex_two_calls"
  by (simp add: ex_two_calls_def run_def call_def rpc_socket_init_def socket_write_def Let_def)

text \<open>
  C4 as stated fails for the transport's \<open>close\<close>: the handler sets the closed flag and
  emits \<open>close\<close>, and the two pending calls stay parked, unsettled.
\<close>

theorem close_leaves_pending_counterexample:
  "pendingCalls (on_close ex_two_calls False) = [(0, 0), (1, 1)]
   \<and> settled (on_close ex_two_calls False) = []
   \<and> ended (on_close ex_two_calls False)"
  using ex_two_calls_eq by (simp add: on_close_def emit_def)


theorem error_rejects_pending_witness:
  "pendingCalls (on_error ex_two_calls (GenericError ''read ECONNRESET'')) = []
   \<and> filter (\<lambda>x. fst x = 0) (settled (on_error ex_two_calls (GenericError ''read ECONNRESET'')))
       = [(0, Rejected SocketClosedError)]
   \<and> filter (\<lambda>x. fst x = 1) (settled (on_error ex_two_calls (GenericError ''read ECONNRESET'')))
       = [(1, Rejected SocketClosedError)]"
  using error_rejects_pending [OF ex_two_calls_def, of "GenericError ''read ECONNRESET''"]
    ex_two_calls_eq
  by simp

section \<open>Registering an object again\<close>

lemma addStub_stubCnt: "stubCnt s \<le> stubCnt (snd (addStub s obj))"
  by (simp add: addStub_def sendMetadata_def socket_write_def make_free_def Let_def
      split: option.splits)

lemma marshalArgument_stubCnt: "stubCnt s \<le> stubCnt (snd (marshalArgument s v))"
  by (rule marshal_rel(1) [of "\<lambda>s s'. stubCnt s \<le> stubCnt s'"])
    (simp_all add: addStub_stubCnt)

lemma marshal_all_stubCnt: "stubCnt s \<le> stubCnt (snd (marshal_all s vs))"
  by (rule marshal_rel(2) [of "\<lambda>s s'. stubCnt s \<le> stubCnt s'"])
    (simp_all add: addStub_stubCnt)

lemma call_stubCnt: "stubCnt s \<le> stubCnt (snd (call s obj meth args))"
proof (cases "inCall s \<or> ended s")
  case True
  then show ?thesis by (auto simp: call_def)
next
  case False
  then have c: "\<not> inCall s" "\<not> ended s" by simp_all
  obtain r s1 where m: "marshal_all (s\<lparr>inCall := True\<rparr>) args = (r, s1)"
    by (cases "marshal_all (s\<lparr>inCall := True\<rparr>) args")
  have le: "stubCnt s \<le> stubCnt s1"
    using marshal_all_stubCnt [of "s\<lparr>inCall := True\<rparr>" args] m by simp
  show ?thesis
  proof (cases r)
    case (Inl e)
    with m c le show ?thesis by (simp add: call_def)
  next
    case (Inr marshalled)
    show ?thesis unfolding call_success [OF c m [unfolded Inr]] using le by simp
  qed
qed

lemma handleCall_return_stubCnt: "stubCnt s \<le> stubCnt (handleCall_return s ident v)"
  using marshalArgument_stubCnt [of s v]
  by (auto simp: handleCall_return_def handleCall_catch_def socket_write_def
      split: prod.splits sum.splits)

lemma handleMessage_stubCnt: "stubCnt (handleMessage s msg) = stubCnt s"
  by (cases msg)
    (auto simp: new_proxy_def handleCall_def handleCall_catch_def socket_write_def
      handleReply_def handleFree_def reject_def resolve_def Let_def
      split: call_dispatch.splits msgid.splits option.splits sum.splits)

lemma freeProxy_stubCnt: "stubCnt (freeProxy s ident) = stubCnt s"
  by (simp add: freeProxy_def socket_write_def Let_def split: objid.splits)

lemma object_free_stubCnt: "stubCnt s \<le> stubCnt (object_free s obj)"
proof -
  have "stubCnt s \<le> stubCnt (proxy_free s obj ms)" for ms
    by (rule proxy_free_rel) (simp_all add: freeProxy_stubCnt call_stubCnt)
  then show ?thesis by (simp add: object_free_def split: option.splits)
qed

lemma step_stubCnt: "stubCnt s \<le> stubCnt (step s op)"
  by (cases op)
    (simp_all add: addStub_stubCnt call_stubCnt handleCall_return_stubCnt handleMessage_stubCnt
      freeProxy_stubCnt object_free_stubCnt handleCall_catch_def on_error_def on_end_def
      on_close_def emit_def failAllCalls_eq new_object_def socket_write_def Let_def)

lemma fold_delete_keep: "m i = None \<Longrightarrow> fold (\<lambda>i m. m(i := None)) ids m i = None"
  by (induction ids arbitrary: m) simp_all

lemma fold_delete_mem: "i \<in> set ids \<Longrightarrow> fold (\<lambda>i m. m(i := None)) ids m i = None"
proof (induction ids arbitrary: m)
  case Nil
  then show ?case by simp
next
  case (Cons a ids)
  show ?case
  proof (cases "a = i")
    case True
    have "fold (\<lambda>i m. m(i := None)) ids (m(i := None)) i = None"
      by (rule fold_delete_keep) simp
    with True show ?thesis by (simp only: fold_simps)
  next
    case False
    with Cons show ?thesis by simp
  qed
qed

lemma ex_stub_flags: "\<not> inCall ex_stub \<and> freeIds (heap ex_stub 0) = [''h-1:0:0'']"
  by (simp add: ex_stub_def run_def new_object_def addStub_def rpc_socket_init_def
      stubbable_object_def make_free_def sendMetadata_def socket_write_def Let_def string_of_nat_0)

text \<open>
  C3. On an endpoint reached from a fresh one by any operations, for an object that is
  registered: while its oid is in the id map, \<open>addStub\<close> returns the oid and changes
  nothing (no announcement); when the oid is not in the id map, \<open>addStub\<close> returns the same
  oid, puts it back in the id map and announces it with a new-object message (written to the
  transport, or buffered while \<open>inCall\<close> is set), and changes nothing else. The object's
  \<^verbatim>\<open>$free\<close> removes the oid from the id map and leaves the object registered. Oids come
  from the counter: a registered oid is the socket id followed by a number below the counter,
  two registered objects never share an oid, an object that is not registered yet gets the
  current number, which no registered object has, and the counter moves up by one; no
  operation makes the counter smaller.
\<close>

theorem addStub_registered:
  assumes "s = run (rpc_socket_init sid) ops" and "knownStubs s obj = Some stub"
  shows "(knownStubIds s (stub_rpcId stub) \<noteq> None \<longrightarrow>
            addStub s obj = (Inr (stub_rpcId stub), s))
       \<and> (knownStubIds s (stub_rpcId stub) = None \<longrightarrow>
            addStub s obj =
              (Inr (stub_rpcId stub),
               if inCall s
               then s\<lparr>knownStubIds := (knownStubIds s)(stub_rpcId stub \<mapsto> obj),
                      newObjects := newObjects s
                        @ [NewObjectMsg (stub_rpcId stub) (stub_methods stub)]\<rparr>
               else s\<lparr>knownStubIds := (knownStubIds s)(stub_rpcId stub \<mapsto> obj),
                      wire := wire s @ [NewObjectMsg (stub_rpcId stub) (stub_methods stub)]\<rparr>))
       \<and> knownStubIds (object_free s obj) (stub_rpcId stub) = None
       \<and> knownStubs (object_free s obj) obj = Some stub
       \<and> (\<exists>n. n < stubCnt s \<and> stub_rpcId stub = socketId s @ string_of_nat n)
       \<and> (\<forall>obj' stub'. knownStubs s obj' = Some stub' \<and> obj' \<noteq> obj \<longrightarrow>
             stub_rpcId stub' \<noteq> stub_rpcId stub)
       \<and> (\<forall>obj' ms. knownStubs s obj' = None \<and> rpcMethodsField (heap s obj') = Some ms \<longrightarrow>
             fst (addStub s obj') = Inr (socketId s @ string_of_nat (stubCnt s))
             \<and> stubCnt (snd (addStub s obj')) = stubCnt s + 1
             \<and> socketId s @ string_of_nat (stubCnt s) \<noteq> stub_rpcId stub)
       \<and> (\<forall>op. stubCnt s \<le> stubCnt (step s op))"
proof -
  have inv: "stubs_inv s" unfolding assms(1) by (rule reachable_stubs_inv)
  note k = assms(2)
  have live: "knownStubIds s (stub_rpcId stub) \<noteq> None \<longrightarrow>
      addStub s obj = (Inr (stub_rpcId stub), s)"
    using k by (simp add: addStub_live)
  have freed: "knownStubIds s (stub_rpcId stub) = None \<longrightarrow>
            addStub s obj =
              (Inr (stub_rpcId stub),
               if inCall s
               then s\<lparr>knownStubIds := (knownStubIds s)(stub_rpcId stub \<mapsto> obj),
                      newObjects := newObjects s
                        @ [NewObjectMsg (stub_rpcId stub) (stub_methods stub)]\<rparr>
               else s\<lparr>knownStubIds := (knownStubIds s)(stub_rpcId stub \<mapsto> obj),
                      wire := wire s @ [NewObjectMsg (stub_rpcId stub) (stub_methods stub)]\<rparr>)"
    using k by (simp add: addStub_freed sendMetadata_def socket_write_def)
  from inv k have mem: "stub_rpcId stub \<in> set (freeIds (heap s obj))"
    and num: "\<exists>n. n < stubCnt s \<and> stub_rpcId stub = socketId s @ string_of_nat n"
    unfolding stubs_inv_def by blast+
  from mem have ne: "freeIds (heap s obj) \<noteq> []" by auto
  have fr1: "knownStubIds (object_free s obj) (stub_rpcId stub) = None"
    using ne mem by (simp add: object_free_def fold_delete_mem)
  have fr2: "knownStubs (object_free s obj) obj = Some stub"
    using ne k by (simp add: object_free_def)
  have inj: "\<forall>obj' stub'. knownStubs s obj' = Some stub' \<and> obj' \<noteq> obj \<longrightarrow>
             stub_rpcId stub' \<noteq> stub_rpcId stub"
    using inv k unfolding stubs_inv_def by blast
  have new: "fst (addStub s obj') = Inr (socketId s @ string_of_nat (stubCnt s))
             \<and> stubCnt (snd (addStub s obj')) = stubCnt s + 1
             \<and> socketId s @ string_of_nat (stubCnt s) \<noteq> stub_rpcId stub"
    if a: "knownStubs s obj' = None" and b: "rpcMethodsField (heap s obj') = Some ms" for obj' ms
  proof -
    from num obtain n where n: "n < stubCnt s" "stub_rpcId stub = socketId s @ string_of_nat n"
      by blast
    then have "socketId s @ string_of_nat (stubCnt s) \<noteq> stub_rpcId stub"
      using string_of_nat_inj [of "stubCnt s" n] by auto
    then show ?thesis
      unfolding addStub_new [OF a b] by (simp add: sendMetadata_def socket_write_def)
  qed
  from live freed fr1 fr2 num inj new step_stubCnt show ?thesis by blast
qed

lemma ex_freed_eq: "ex_freed = object_free ex_stub 0"
  by (simp add: ex_freed_def ex_stub_def run_def)

theorem addStub_registered_witness:
  "addStub ex_stub 0 = (Inr ''h-1:0:0'', ex_stub)
   \<and> knownStubIds ex_freed ''h-1:0:0'' = None
   \<and> addStub ex_freed 0 =
       (Inr ''h-1:0:0'',
        ex_freed\<lparr>knownStubIds := (knownStubIds ex_freed)(''h-1:0:0'' \<mapsto> 0),
                 wire := wire ex_freed
                   @ [NewObjectMsg ''h-1:0:0'' [''get owner'', ''frobnicate'', ''getValue'']]\<rparr>)"
proof -
  let ?stub = "\<lparr>stub_rpcId = ''h-1:0:0'', stub_object = 0,
                stub_methods = [''get owner'', ''frobnicate'', ''getValue'']\<rparr>"
  have k: "knownStubs ex_stub 0 = Some ?stub" and l: "knownStubIds ex_stub ''h-1:0:0'' = Some 0"
    using ex_stub_eq by simp_all
  note t1 = addStub_registered [OF ex_stub_def k]
  have a: "addStub ex_stub 0 = (Inr ''h-1:0:0'', ex_stub)"
    using t1 l by simp
  have b: "knownStubIds ex_freed ''h-1:0:0'' = None"
    and k2: "knownStubs ex_freed 0 = Some ?stub"
    using t1 by (simp_all add: ex_freed_eq)
  have nc: "\<not> inCall ex_freed"
    using ex_stub_flags by (simp add: ex_freed_eq object_free_def)
  note t2 = addStub_registered [OF ex_freed_def k2]
  have c: "addStub ex_freed 0 =
       (Inr ''h-1:0:0'',
        ex_freed\<lparr>knownStubIds := (knownStubIds ex_freed)(''h-1:0:0'' \<mapsto> 0),
                 wire := wire ex_freed
                   @ [NewObjectMsg ''h-1:0:0'' [''get owner'', ''frobnicate'', ''getValue'']]\<rparr>)"
    using t2 b nc by simp
  from a b c show ?thesis by (intro conjI)
qed

section \<open>Reply matching\<close>








section \<open>The invocation contract of a stub\<close>

text \<open>
  C7. An inbound call on a live stub, with an id and parameters that unmarshal to \<open>args\<close>.
  A method that is neither \<open>get NAME\<close> nor \<open>set NAME\<close> fails with the invalid-method error
  when it is not in the stub's snapshot, and is otherwise invoked on the target with \<open>args\<close>
  as they are. \<open>get NAME\<close> fails with the wrong-arity error unless there are no arguments,
  and then reads \<open>NAME\<close> if \<open>get NAME\<close> is in the snapshot and fails with the invalid-method
  error if not. \<open>set NAME\<close> fails with the wrong-arity error unless there is exactly one
  argument, and then writes \<open>NAME\<close> if and only if \<open>get NAME\<close> is in the snapshot; it fails
  with the invalid-method error otherwise. The arity is checked before the snapshot.
\<close>

theorem invocation_contract:
  assumes "knownStubIds s obj = Some target" and "knownStubs s target = Some stub"
    and "unmarshal_all s ps = Inr args" and "ident \<noteq> IdUndefined"
  shows "(take 4 method \<noteq> ''get '' \<and> take 4 method \<noteq> ''set '' \<longrightarrow>
            handleCall_try s ident obj method (VArr ps)
              = (if method \<in> set (stub_methods stub)
                 then Invoke (stub_object stub) (DoCall method args)
                 else Threw (TypeError (''Invalid method '' @ method))))
         \<and> (\<forall>name. method = ''get '' @ name \<longrightarrow>
              handleCall_try s ident obj method (VArr ps)
                = (if args \<noteq> [] then Threw (TypeError ''Wrong number of arguments, expected 0'')
                   else if ''get '' @ name \<in> set (stub_methods stub)
                   then Invoke (stub_object stub) (DoGet name)
                   else Threw (TypeError (''Invalid method get '' @ name))))
         \<and> (\<forall>name. method = ''set '' @ name \<longrightarrow>
              handleCall_try s ident obj method (VArr ps)
                = (if length args \<noteq> 1
                   then Threw (TypeError ''Wrong number of arguments, expected 1'')
                   else if ''get '' @ name \<in> set (stub_methods stub)
                   then Invoke (stub_object stub) (DoSet name (args ! 0))
                   else Threw (TypeError (''Invalid method get '' @ name))))"
  using assms
  by (auto simp: handleCall_try_def stub_dispatch_def stub_get_def stub_set_def stub_call_def
      validateCall_def)

theorem invocation_contract_witness:
  "handleCall_try ex_stub (IdNum 5) ''h-1:0:0'' ''set owner'' (VArr [VNum 3])
     = Invoke 0 (DoSet ''owner'' (VNum 3))
   \<and> handleCall_try ex_stub (IdNum 6) ''h-1:0:0'' ''get owner'' (VArr [VNum 3])
     = Threw (TypeError ''Wrong number of arguments, expected 0'')
   \<and> handleCall_try ex_stub (IdNum 7) ''h-1:0:0'' ''hidden'' (VArr [])
     = Threw (TypeError ''Invalid method hidden'')
   \<and> handleCall_try ex_stub (IdNum 8) ''h-1:0:0'' ''frobnicate'' (VArr [VStr ''x'', VNull])
     = Invoke 0 (DoCall ''frobnicate'' [VStr ''x'', VNull])"
proof -
  have live: "knownStubIds ex_stub ''h-1:0:0'' = Some 0"
    and stub: "knownStubs ex_stub 0
       = Some \<lparr>stub_rpcId = ''h-1:0:0'', stub_object = 0,
               stub_methods = [''get owner'', ''frobnicate'', ''getValue'']\<rparr>"
    using ex_stub_eq by simp_all
  have u1: "unmarshal_all ex_stub [VNum 3] = Inr [VNum 3]"
    and u2: "unmarshal_all ex_stub [] = Inr []"
    and u3: "unmarshal_all ex_stub [VStr ''x'', VNull] = Inr [VStr ''x'', VNull]"
    by simp_all
  have a: "handleCall_try ex_stub (IdNum 5) ''h-1:0:0'' ''set owner'' (VArr [VNum 3])
             = Invoke 0 (DoSet ''owner'' (VNum 3))"
    using invocation_contract [OF live stub u1, of "IdNum 5" "''set owner''"] by simp
  have b: "handleCall_try ex_stub (IdNum 6) ''h-1:0:0'' ''get owner'' (VArr [VNum 3])
             = Threw (TypeError ''Wrong number of arguments, expected 0'')"
    using invocation_contract [OF live stub u1, of "IdNum 6" "''get owner''"] by simp
  have c: "handleCall_try ex_stub (IdNum 7) ''h-1:0:0'' ''hidden'' (VArr [])
             = Threw (TypeError ''Invalid method hidden'')"
    using invocation_contract [OF live stub u2, of "IdNum 7" "''hidden''"] by simp
  have d: "handleCall_try ex_stub (IdNum 8) ''h-1:0:0'' ''frobnicate'' (VArr [VStr ''x'', VNull])
             = Invoke 0 (DoCall ''frobnicate'' [VStr ''x'', VNull])"
    using invocation_contract [OF live stub u3, of "IdNum 8" "''frobnicate''"] by simp
  from a b c d show ?thesis by (intro conjI)
qed

section \<open>Marshalling and unmarshalling a value\<close>

lemma marshal_ext_refl: "marshal_ext s s"
  by (simp add: marshal_ext_def)

lemma marshal_ext_trans: "marshal_ext s t \<Longrightarrow> marshal_ext t u \<Longrightarrow> marshal_ext s u"
  by (simp add: marshal_ext_def)

lemma sendMetadata_ext: "marshal_ext s t \<Longrightarrow> marshal_ext s (sendMetadata t stub)"
  by (simp add: marshal_ext_def sendMetadata_def socket_write_def)

lemma addStub_ext:
  assumes inv: "stubs_inv s"
  shows "marshal_ext s (snd (addStub s obj))"
proof (cases "knownStubs s obj")
  case None
  show ?thesis
  proof (cases "rpcMethodsField (heap s obj)")
    case n: None
    with None show ?thesis by (simp add: addStub_invalid marshal_ext_refl)
  next
    case (Some ms)
    have fresh: "knownStubIds s (socketId s @ string_of_nat (stubCnt s)) = None"
    proof (rule ccontr)
      assume "knownStubIds s (socketId s @ string_of_nat (stubCnt s)) \<noteq> None"
      then obtain ob where "knownStubIds s (socketId s @ string_of_nat (stubCnt s)) = Some ob"
        by auto
      with inv obtain st where st: "knownStubs s ob = Some st"
        "stub_rpcId st = socketId s @ string_of_nat (stubCnt s)"
        unfolding stubs_inv_def by blast
      with inv obtain n where "n < stubCnt s" "stub_rpcId st = socketId s @ string_of_nat n"
        unfolding stubs_inv_def by blast
      with st(2) show False using string_of_nat_inj [of n "stubCnt s"] by auto
    qed
    show ?thesis
      unfolding addStub_new [OF None Some] snd_conv
      by (rule sendMetadata_ext) (use fresh in \<open>auto simp: marshal_ext_def\<close>)
  qed
next
  case (Some stub)
  show ?thesis
  proof (cases "knownStubIds s (stub_rpcId stub)")
    case None
    show ?thesis
      unfolding addStub_freed [OF Some None] snd_conv
      by (rule sendMetadata_ext) (use None in \<open>auto simp: marshal_ext_def\<close>)
  next
    case s: (Some a)
    with Some show ?thesis by (simp add: addStub_live marshal_ext_refl)
  qed
qed

lemma addStub_installed:
  assumes inv: "stubs_inv s" and a: "addStub s obj = (Inr oid, s')"
  shows "knownStubIds s' oid = Some obj"
proof (cases "knownStubs s obj")
  case None
  show ?thesis
  proof (cases "rpcMethodsField (heap s obj)")
    case n: None
    with None a show ?thesis by (simp add: addStub_invalid)
  next
    case (Some ms)
    from a show ?thesis
      unfolding addStub_new [OF None Some]
      by (auto simp: sendMetadata_def socket_write_def)
  qed
next
  case (Some stub)
  show ?thesis
  proof (cases "knownStubIds s (stub_rpcId stub)")
    case None
    from a show ?thesis
      unfolding addStub_freed [OF Some None]
      by (auto simp: sendMetadata_def socket_write_def)
  next
    case s: (Some x)
    with Some a have e: "oid = stub_rpcId stub" "s' = s" by (simp_all add: addStub_live)
    from inv s obtain st where st: "knownStubs s x = Some st" "stub_rpcId st = stub_rpcId stub"
      unfolding stubs_inv_def by blast
    with inv Some have "x = obj" unfolding stubs_inv_def by blast
    with s e show ?thesis by simp
  qed
qed

lemma addStub_succeeds:
  assumes "rpcMethodsField (heap s obj) = Some ms"
  shows "\<exists>oid. fst (addStub s obj) = Inr oid"
  using assms by (simp add: addStub_def Let_def split: option.splits)

lemma marshal_inv_ext:
  "stubs_inv s \<longrightarrow> stubs_inv (snd (marshalArgument s v)) \<and> marshal_ext s (snd (marshalArgument s v))"
  "stubs_inv s \<longrightarrow> stubs_inv (snd (marshal_all s vs)) \<and> marshal_ext s (snd (marshal_all s vs))"
proof -
  let ?R = "\<lambda>s t. stubs_inv s \<longrightarrow> stubs_inv t \<and> marshal_ext s t"
  have r: "\<And>s. ?R s s" by (simp add: marshal_ext_refl)
  have t: "\<And>s s1 s2. ?R s s1 \<Longrightarrow> ?R s1 s2 \<Longrightarrow> ?R s s2" by (blast intro: marshal_ext_trans)
  have a: "\<And>s obj. ?R s (snd (addStub s obj))" by (simp add: addStub_stubs_inv addStub_ext)
  show "?R s (snd (marshalArgument s v))" by (rule marshal_rel(1) [of ?R, OF r t a])
  show "?R s (snd (marshal_all s vs))" by (rule marshal_rel(2) [of ?R, OF r t a])
qed

lemma ext_roundtrip:
  assumes "marshal_ext s t"
  shows "roundtrip_value t v = roundtrip_value s v"
    and "roundtrip_values t vs = roundtrip_values s vs"
  using assms
  by (induction s v and s vs rule: roundtrip_value_roundtrip_values.induct)
    (auto simp: marshal_ext_def split: rpcid_prop.splits objid.splits)

lemma ext_proxy_oids:
  assumes "marshal_ext s t"
  shows "proxy_oids t v = proxy_oids s v"
    and "proxy_oids_all t vs = proxy_oids_all s vs"
  using assms
  by (induction s v and s vs rule: proxy_oids_proxy_oids_all.induct)
    (auto simp: marshal_ext_def split: rpcid_prop.splits objid.splits)

lemma unmarshal_installed:
  "knownStubIds t oid = Some obj \<Longrightarrow> unmarshalArgument t (VOid oid) = Inr (VObj obj)"
  by (simp add: unmarshal_oid_def)

lemma unmarshal_proxy:
  "knownStubIds t oid = None \<Longrightarrow> knownProxies t oid = Some p
   \<Longrightarrow> unmarshalArgument t (VOid oid) = Inr (VObj p)"
  by (simp add: unmarshal_oid_def)

lemma roundtrip_aux:
  "stubs_inv s \<Longrightarrow> roundtrip_value s v \<Longrightarrow>
     \<exists>w. fst (marshalArgument s v) = Inr w \<and>
       (\<forall>t. marshal_ext (snd (marshalArgument s v)) t \<longrightarrow>
            (\<forall>rid \<in> set (proxy_oids s v). knownStubIds t rid = None) \<longrightarrow>
            unmarshalArgument t w = Inr v)"
  "stubs_inv s \<Longrightarrow> roundtrip_values s vs \<Longrightarrow>
     \<exists>ws. fst (marshal_all s vs) = Inr ws \<and>
       (\<forall>t. marshal_ext (snd (marshal_all s vs)) t \<longrightarrow>
            (\<forall>rid \<in> set (proxy_oids_all s vs). knownStubIds t rid = None) \<longrightarrow>
            unmarshal_all t ws = Inr vs)"
proof (induction s v and s vs rule: marshalArgument_marshal_all.induct)
  case (1 s xs)
  from 1 obtain ws where ws: "fst (marshal_all s xs) = Inr ws"
    and u: "\<And>t. marshal_ext (snd (marshal_all s xs)) t \<Longrightarrow>
            (\<forall>rid \<in> set (proxy_oids_all s xs). knownStubIds t rid = None) \<Longrightarrow>
            unmarshal_all t ws = Inr xs"
    by auto
  obtain s' where m: "marshal_all s xs = (Inr ws, s')" using ws by (cases "marshal_all s xs") auto
  show ?case
  proof (intro exI [of _ "VArr ws"] conjI allI impI)
    show "fst (marshalArgument s (VArr xs)) = Inr (VArr ws)" using m by simp
  next
    fix t
    assume "marshal_ext (snd (marshalArgument s (VArr xs))) t"
      and "\<forall>rid \<in> set (proxy_oids s (VArr xs)). knownStubIds t rid = None"
    with m u [of t] show "unmarshalArgument t (VArr ws) = Inr (VArr xs)" by simp
  qed
next
  case (2 s r)
  show ?case
  proof (cases "rpcIdField (heap s r)")
    case RpcIdGetter
    with 2 show ?thesis by simp
  next
    case (RpcIdIs i)
    with 2 obtain rid where Some: "rpcIdField (heap s r) = RpcIdIs (OidStr rid)"
      and p: "knownProxies s rid = Some r"
      by (cases i) simp_all
    show ?thesis
    proof (intro exI [of _ "VOid rid"] conjI allI impI)
      show "fst (marshalArgument s (VObj r)) = Inr (VOid rid)" using Some p by simp
    next
      fix t
      assume e: "marshal_ext (snd (marshalArgument s (VObj r))) t"
        and n: "\<forall>rid \<in> set (proxy_oids s (VObj r)). knownStubIds t rid = None"
      from e Some p have "knownProxies t rid = Some r" by (simp add: marshal_ext_def)
      moreover from n Some have "knownStubIds t rid = None" by simp
      ultimately show "unmarshalArgument t (VOid rid) = Inr (VObj r)"
        by (rule unmarshal_proxy [rotated])
    qed
  next
    case None: RpcIdAbsent
    show ?thesis
    proof (cases "rpcMethodsField (heap s r)")
      case n: None
      show ?thesis
      proof (intro exI [of _ "VObj r"] conjI allI impI)
        show "fst (marshalArgument s (VObj r)) = Inr (VObj r)" using None n by simp
      next
        fix t
        assume e: "marshal_ext (snd (marshalArgument s (VObj r))) t"
        with None n have "rpcIdField (heap t r) = RpcIdAbsent" by (simp add: marshal_ext_def)
        then show "unmarshalArgument t (VObj r) = Inr (VObj r)" by simp
      qed
    next
      case (Some ms)
      from addStub_succeeds [OF Some] obtain oid where "fst (addStub s r) = Inr oid" by blast
      then obtain s' where a: "addStub s r = (Inr oid, s')" by (cases "addStub s r") auto
      from addStub_installed [OF 2(1) a] have i: "knownStubIds s' oid = Some r" .
      show ?thesis
      proof (intro exI [of _ "VOid oid"] conjI allI impI)
        show "fst (marshalArgument s (VObj r)) = Inr (VOid oid)" using None Some a by simp
      next
        fix t
        assume e: "marshal_ext (snd (marshalArgument s (VObj r))) t"
        with None Some a have "marshal_ext s' t" by simp
        with i have "knownStubIds t oid = Some r" by (simp add: marshal_ext_def)
        then show "unmarshalArgument t (VOid oid) = Inr (VObj r)" by (rule unmarshal_installed)
      qed
    qed
  qed
next
  case (6 s x xs)
  from 6(3,4) have rx: "roundtrip_value s x" and rxs: "roundtrip_values s xs" by simp_all
  from 6(1) [OF 6(3) rx] obtain w where w: "fst (marshalArgument s x) = Inr w"
    and u1: "\<And>t. marshal_ext (snd (marshalArgument s x)) t \<Longrightarrow>
            (\<forall>rid \<in> set (proxy_oids s x). knownStubIds t rid = None) \<Longrightarrow>
            unmarshalArgument t w = Inr x"
    by auto
  obtain s1 where m1: "marshalArgument s x = (Inr w, s1)"
    using w by (cases "marshalArgument s x") auto
  from marshal_inv_ext(1) [of s x] 6(3) m1 have inv1: "stubs_inv s1" and e1: "marshal_ext s s1"
    by simp_all
  from rxs e1 have rxs1: "roundtrip_values s1 xs" by (simp add: ext_roundtrip)
  from 6(2) [OF m1 [symmetric] refl inv1 rxs1]
  obtain ws where ws: "fst (marshal_all s1 xs) = Inr ws"
    and u2: "\<And>t. marshal_ext (snd (marshal_all s1 xs)) t \<Longrightarrow>
            (\<forall>rid \<in> set (proxy_oids_all s1 xs). knownStubIds t rid = None) \<Longrightarrow>
            unmarshal_all t ws = Inr xs"
    by auto
  obtain s2 where m2: "marshal_all s1 xs = (Inr ws, s2)"
    using ws by (cases "marshal_all s1 xs") auto
  from marshal_inv_ext(2) [of s1 xs] inv1 m2 have e2: "marshal_ext s1 s2" by simp
  show ?case
  proof (intro exI [of _ "w # ws"] conjI allI impI)
    show "fst (marshal_all s (x # xs)) = Inr (w # ws)" using m1 m2 by simp
  next
    fix t
    assume e: "marshal_ext (snd (marshal_all s (x # xs))) t"
      and n: "\<forall>rid \<in> set (proxy_oids_all s (x # xs)). knownStubIds t rid = None"
    from e m1 m2 have et: "marshal_ext s2 t" by simp
    with e2 have e1t: "marshal_ext s1 t" by (rule marshal_ext_trans)
    from n have n1: "\<forall>rid \<in> set (proxy_oids s x). knownStubIds t rid = None"
      and n2: "\<forall>rid \<in> set (proxy_oids_all s1 xs). knownStubIds t rid = None"
      by (simp_all add: ext_proxy_oids(2) [OF e1])
    from u1 [of t] m1 e1t n1 have "unmarshalArgument t w = Inr x" by simp
    moreover from u2 [of t] m2 et n2 have "unmarshal_all t ws = Inr xs" by simp
    ultimately show "unmarshal_all t (w # ws) = Inr (x # xs)" by simp
  qed
qed simp_all

text \<open>
  C2 (as amended). On an endpoint reached from a fresh one by any operations, for a value
  built from primitives, arrays, plain data objects and stubbable objects that carry no
  \<^verbatim>\<open>$rpcId\<close> of their own, and proxies that the proxy registry holds under the oid that
  their \<^verbatim>\<open>$rpcId\<close> holds (every proxy of the registry none of whose methods is named
  \<^verbatim>\<open>$rpcId\<close> or \<^verbatim>\<open>get $rpcId\<close> is one, \<open>registered_proxy_roundtrip\<close>): marshalling
  succeeds, and if no oid of a proxy in the value is a key of the id map once the value has
  been marshalled, unmarshalling the result gives the value back, with every object the
  same instance as before.
\<close>

theorem marshal_roundtrip:
  assumes "s = run (rpc_socket_init sid) ops" and "roundtrip_value s v"
    and "marshalArgument s v = (r, s')"
    and "\<forall>rid \<in> set (proxy_oids s v). knownStubIds s' rid = None"
  shows "\<exists>w. r = Inr w \<and> unmarshalArgument s' w = Inr v"
proof -
  have inv: "stubs_inv s" unfolding assms(1) by (rule reachable_stubs_inv)
  from roundtrip_aux(1) [OF inv assms(2)] assms(3)
  obtain w where w: "r = Inr w"
    and u: "\<And>t. marshal_ext s' t \<Longrightarrow>
            (\<forall>rid \<in> set (proxy_oids s v). knownStubIds t rid = None) \<Longrightarrow>
            unmarshalArgument t w = Inr v"
    by auto
  from u [OF marshal_ext_refl assms(4)] w show ?thesis by simp
qed

lemma ex_mixed_marshal:
  "roundtrip_value ex_mixed ex_payload
   \<and> fst (marshalArgument ex_mixed ex_payload) = Inr ex_payload_wire
   \<and> proxy_oids ex_mixed ex_payload = [''h-2:0:1'', ''h-2:0:1'']
   \<and> knownStubIds (snd (marshalArgument ex_mixed ex_payload)) ''h-2:0:1'' = None"
  by (simp add: ex_mixed_def ex_payload_def ex_payload_wire_def run_def new_proxy_def
      new_object_def addStub_def rpc_socket_init_def stubbable_object_def proxy_object_def
      proxy_prop_def define_method_def plain_object_def make_free_def sendMetadata_def
      socket_write_def Let_def string_of_nat_0)

theorem marshal_roundtrip_witness:
  "roundtrip_value ex_mixed ex_payload
   \<and> fst (marshalArgument ex_mixed ex_payload) = Inr ex_payload_wire
   \<and> unmarshalArgument (snd (marshalArgument ex_mixed ex_payload)) ex_payload_wire
       = Inr ex_payload"
proof -
  have a: "roundtrip_value ex_mixed ex_payload"
    and b: "fst (marshalArgument ex_mixed ex_payload) = Inr ex_payload_wire"
    using ex_mixed_marshal by simp_all
  have c: "\<forall>rid \<in> set (proxy_oids ex_mixed ex_payload).
             knownStubIds (snd (marshalArgument ex_mixed ex_payload)) rid = None"
    using ex_mixed_marshal by simp
  have d: "marshalArgument ex_mixed ex_payload
             = (fst (marshalArgument ex_mixed ex_payload), snd (marshalArgument ex_mixed ex_payload))"
    by simp
  from marshal_roundtrip [OF ex_mixed_def a d c] b
  have "unmarshalArgument (snd (marshalArgument ex_mixed ex_payload)) ex_payload_wire
          = Inr ex_payload"
    by auto
  with a b show ?thesis by (intro conjI)
qed

text \<open>
  C2 as stated fails in three ways. When the oid of a proxy is also the oid of a live stub:
  the proxy is in the registry, it is marshalled to its oid, and the oid is resolved
  against the id map first, which gives the stubbed object and not the proxy. When the peer
  has announced an object with a method named \<^verbatim>\<open>$rpcId\<close>: the proxy is in the registry,
  but its \<^verbatim>\<open>$rpcId\<close> is the function of that method, which is no key of the registry, and
  marshalling throws the invalid-object error. When a stubbable object carries a
  \<^verbatim>\<open>$rpcId\<close> of its own: it is registered, but it is marshalled as a proxy would be, and
  marshalling throws the invalid-object error.
\<close>

theorem marshal_roundtrip_counterexample:
  "roundtrip_value ex_clash (VObj 1)
   \<and> marshalArgument ex_clash (VObj 1) = (Inr (VOid ''h-1:0:0''), ex_clash)
   \<and> unmarshalArgument ex_clash (VOid ''h-1:0:0'') = Inr (VObj 0)
   \<and> knownProxies ex_shadow ''h-2:0:1'' = Some 0
   \<and> proxyMethods (heap ex_shadow 0) = Some [''getValue'', ''$rpcId'']
   \<and> (case fst (marshalArgument ex_shadow (VObj 0)) of
         Inl e \<Rightarrow> err_code e = Some (CodeStr ''ENXIO'') \<and> err_objectId e = Some (OidFun ''$rpcId'')
       | Inr w \<Rightarrow> False)
   \<and> knownStubIds ex_tagged ''h-1:0:0'' = Some 0
   \<and> knownStubs ex_tagged 0
       = Some \<lparr>stub_rpcId = ''h-1:0:0'', stub_object = 0, stub_methods = [''frobnicate'']\<rparr>
   \<and> marshalArgument ex_tagged (VObj 0)
       = (Inl (InvalidObjectError (OidStr ''mine'')
                 ''Invalid object mine, likely a proxy from a different socket''), ex_tagged)"
  by (simp add: ex_clash_def ex_shadow_def ex_tagged_def run_def new_proxy_def new_object_def
      addStub_def rpc_socket_init_def stubbable_object_def proxy_object_def proxy_prop_def
      define_method_def make_free_def sendMetadata_def socket_write_def unmarshal_oid_def
      InvalidObjectError_def Let_def string_of_nat_0)
section \<open>Announcements come before the call that uses them\<close>

lemma ann_oids_append: "ann_oids (w @ w') = ann_oids w @ ann_oids w'"
  by (induction w rule: ann_oids.induct) simp_all

lemma inbound_oids_append: "inbound_oids (ops @ ops') = inbound_oids ops @ inbound_oids ops'"
  by (induction ops rule: inbound_oids.induct) simp_all

lemma ordered_wire_mono:
  "set seen \<subseteq> set seen' \<Longrightarrow> ordered_wire seen w \<Longrightarrow> ordered_wire seen' w"
proof (induction seen w arbitrary: seen' rule: ordered_wire.induct)
  case (2 seen oid ms w)
  from 2(2) have "set (oid # seen) \<subseteq> set (oid # seen')" by auto
  with 2 show ?case by simp
next
  case (3 seen ident obj meth params w)
  then show ?case by auto
qed simp_all

lemma ordered_wire_cong:
  "set seen = set seen' \<Longrightarrow> ordered_wire seen w = ordered_wire seen' w"
  using ordered_wire_mono [of seen seen' w] ordered_wire_mono [of seen' seen w] by auto

lemma ordered_wire_append:
  "ordered_wire seen (w @ w') = (ordered_wire seen w \<and> ordered_wire (ann_oids w @ seen) w')"
proof (induction seen w rule: ordered_wire.induct)
  case (2 seen oid ms w)
  have "ordered_wire (ann_oids w @ oid # seen) w' = ordered_wire (oid # ann_oids w @ seen) w'"
    by (rule ordered_wire_cong) auto
  with 2 show ?case by simp
qed auto

lemma ordered_wire_no_call: "(\<forall>m. m \<in> set w \<longrightarrow> \<not> is_call m) \<Longrightarrow> ordered_wire seen w"
  by (induction seen w rule: ordered_wire.induct) auto

lemma ordered_wire_write:
  "(\<forall>m. m \<in> set ms \<longrightarrow> \<not> is_call m) \<Longrightarrow> ordered_wire seen (w @ ms) = ordered_wire seen w"
  by (simp add: ordered_wire_append ordered_wire_no_call)

lemma wire_inv_mono: "set px \<subseteq> set px' \<Longrightarrow> wire_inv px s \<Longrightarrow> wire_inv px' s"
  unfolding wire_inv_def using ordered_wire_mono [of px px' "wire s"] by blast

lemma wire_inv_step:
  assumes inv: "wire_inv px s"
    and w: "wire s' = wire s @ ms" and nc: "\<forall>m. m \<in> set ms \<longrightarrow> \<not> is_call m"
    and b: "newObjects s' = newObjects s" and c: "inCall s' = inCall s"
    and p: "\<forall>oid. knownProxies s' oid \<noteq> None \<longrightarrow> knownProxies s oid \<noteq> None"
    and k: "\<forall>oid. knownStubIds s' oid \<noteq> None \<longrightarrow> knownStubIds s oid \<noteq> None"
  shows "wire_inv px s'"
proof -
  have o: "ordered_wire px (wire s')"
    using inv nc by (simp add: w ordered_wire_write wire_inv_def)
  have a: "set (ann_oids (wire s)) \<subseteq> set (ann_oids (wire s'))"
    by (simp add: w ann_oids_append)
  from inv o a b c p k show ?thesis unfolding wire_inv_def by (simp add: subset_iff) blast
qed

lemma wire_inv_same:
  assumes "wire_inv px s" and "wire s' = wire s" and "newObjects s' = newObjects s"
    and "inCall s' = inCall s" and "knownProxies s' = knownProxies s"
    and "knownStubIds s' = knownStubIds s"
  shows "wire_inv px s'"
  by (rule wire_inv_step [OF assms(1), of s' "[]"]) (simp_all add: assms)

lemma wire_inv_announce:
  assumes inv: "wire_inv px s"
    and k: "knownStubIds s2 = (knownStubIds s)(stub_rpcId stub \<mapsto> obj)"
    and w: "wire s2 = wire s" and b: "newObjects s2 = newObjects s"
    and c: "inCall s2 = inCall s" and p: "knownProxies s2 = knownProxies s"
  shows "wire_inv px (sendMetadata s2 stub)"
proof (cases "inCall s")
  case True
  with inv k w b c p show ?thesis
    unfolding wire_inv_def sendMetadata_def
    by (auto simp: ann_oids_append)
next
  case False
  with inv k w b c p show ?thesis
    unfolding wire_inv_def sendMetadata_def socket_write_def
    by (auto simp: ann_oids_append ordered_wire_write)
qed

lemma addStub_wire_inv: "wire_inv px s \<Longrightarrow> wire_inv px (snd (addStub s obj))"
proof -
  assume inv: "wire_inv px s"
  show ?thesis
  proof (cases "knownStubs s obj")
    case None
    show ?thesis
    proof (cases "rpcMethodsField (heap s obj)")
      case n: None
      with None inv show ?thesis by (simp add: addStub_invalid)
    next
      case (Some ms)
      show ?thesis
        unfolding addStub_new [OF None Some] snd_conv
        by (rule wire_inv_announce [OF inv]) simp_all
    qed
  next
    case (Some stub)
    show ?thesis
    proof (cases "knownStubIds s (stub_rpcId stub)")
      case None
      show ?thesis
        unfolding addStub_freed [OF Some None] snd_conv
        by (rule wire_inv_announce [OF inv]) simp_all
    next
      case s: (Some a)
      with Some inv show ?thesis by (simp add: addStub_live)
    qed
  qed
qed

lemma marshalArgument_wire_inv:
  "wire_inv px s \<Longrightarrow> wire_inv px (snd (marshalArgument s v))"
  using marshal_rel(1) [of "\<lambda>s t. wire_inv px s \<longrightarrow> wire_inv px t" s v]
  by (simp add: addStub_wire_inv)

lemma marshal_all_wire_inv:
  "wire_inv px s \<Longrightarrow> wire_inv px (snd (marshal_all s vs))"
  using marshal_rel(2) [of "\<lambda>s t. wire_inv px s \<longrightarrow> wire_inv px t" s vs]
  by (simp add: addStub_wire_inv)

lemma addStub_announced: "announced s \<subseteq> announced (snd (addStub s obj))"
  by (auto simp: announced_def addStub_def sendMetadata_def socket_write_def make_free_def
      Let_def ann_oids_append split: option.splits)

lemma marshalArgument_announced: "announced s \<subseteq> announced (snd (marshalArgument s v))"
  by (rule marshal_rel(1) [of "\<lambda>s t. announced s \<subseteq> announced t"])
    (auto simp: addStub_announced [THEN subsetD])

lemma marshal_all_announced: "announced s \<subseteq> announced (snd (marshal_all s vs))"
  by (rule marshal_rel(2) [of "\<lambda>s t. announced s \<subseteq> announced t"])
    (auto simp: addStub_announced [THEN subsetD])

lemma addStub_in_idmap:
  assumes "addStub s obj = (Inr oid, s')"
  shows "knownStubIds s' oid \<noteq> None"
  using assms
  by (auto simp: addStub_def sendMetadata_def socket_write_def make_free_def Let_def
      split: option.splits if_splits)

lemma marshal_oids:
  "wire_inv px s \<Longrightarrow> fst (marshalArgument s v) = Inr w \<Longrightarrow>
     set (oids_of w) \<subseteq> set px \<union> announced (snd (marshalArgument s v))"
  "wire_inv px s \<Longrightarrow> fst (marshal_all s vs) = Inr ws \<Longrightarrow>
     set (oids_of_all ws) \<subseteq> set px \<union> announced (snd (marshal_all s vs))"
proof (induction s v and s vs arbitrary: w and ws rule: marshalArgument_marshal_all.induct)
  case (1 s xs)
  obtain r s' where m: "marshal_all s xs = (r, s')" by (cases "marshal_all s xs")
  with 1(3) obtain ys where r: "r = Inr ys" and w: "w = VArr ys" by (cases r) auto
  from 1(1) [OF 1(2), of ys] m r have "set (oids_of_all ys) \<subseteq> set px \<union> announced s'" by simp
  with m r w show ?case by simp
next
  case (2 s r)
  show ?case
  proof (cases "rpcIdField (heap s r)")
    case RpcIdGetter
    with 2(2) show ?thesis by simp
  next
    case (RpcIdIs i)
    with 2(2) obtain rid where Some: "rpcIdField (heap s r) = RpcIdIs (OidStr rid)"
      and p: "knownProxies s rid \<noteq> None" and w: "w = VOid rid"
      by (cases i) (auto split: if_splits)
    from 2(1) p have "rid \<in> set px" by (simp add: wire_inv_def)
    with Some p w show ?thesis by simp
  next
    case None: RpcIdAbsent
    show ?thesis
    proof (cases "rpcMethodsField (heap s r)")
      case n: None
      with None 2(2) show ?thesis by auto
    next
      case (Some ms)
      obtain x s' where a: "addStub s r = (x, s')" by (cases "addStub s r")
      with None Some 2(2) obtain oid where x: "x = Inr oid" and w: "w = VOid oid"
        by (cases x) auto
      from a x have "knownStubIds s' oid \<noteq> None" by (simp add: addStub_in_idmap)
      moreover from addStub_wire_inv [OF 2(1), of r] a have "wire_inv px s'" by simp
      ultimately have "oid \<in> announced s'" by (simp add: wire_inv_def announced_def)
      with None Some a x w show ?thesis by simp
    qed
  qed
next
  case (3 s rid)
  then have p: "knownProxies s rid \<noteq> None" and w: "w = VOid rid" by (auto split: if_splits)
  from 3(1) p have "rid \<in> set px" by (simp add: wire_inv_def)
  with p w show ?case by simp
next
  case (6 s x xs)
  obtain r1 s1 where m1: "marshalArgument s x = (r1, s1)" by (cases "marshalArgument s x")
  obtain y where r1: "r1 = Inr y" using 6(4) m1 by (cases r1) auto
  obtain r2 s2 where m2: "marshal_all s1 xs = (r2, s2)" by (cases "marshal_all s1 xs")
  obtain ys where r2: "r2 = Inr ys" and ws: "ws = y # ys"
    using 6(4) m1 r1 m2 by (cases r2) auto
  have inv1: "wire_inv px s1" using marshalArgument_wire_inv [OF 6(3), of x] m1 by simp
  from 6(1) [OF 6(3), of y] m1 r1 have o1: "set (oids_of y) \<subseteq> set px \<union> announced s1" by simp
  from 6(2) [OF m1 [unfolded r1, symmetric] refl inv1, of ys] m2 r2
  have o2: "set (oids_of_all ys) \<subseteq> set px \<union> announced s2" by simp
  from marshal_all_announced [of s1 xs] m2 have "announced s1 \<subseteq> announced s2" by simp
  with o1 o2 m1 r1 m2 r2 ws show ?case by auto
qed auto

lemma wire_inv_init: "wire_inv [] (rpc_socket_init sid)"
  by (simp add: wire_inv_def rpc_socket_init_def)

lemma wire_inv_inCall: "wire_inv px s \<Longrightarrow> wire_inv px (s\<lparr>inCall := True\<rparr>)"
  by (simp add: wire_inv_def)

lemma call_written:
  assumes inv: "wire_inv px s" and c: "\<not> inCall s" "\<not> ended s"
    and m: "marshal_all (s\<lparr>inCall := True\<rparr>) args = (Inr marshalled, s1)"
  shows "wire s1 = wire s" and "newObjects s = []"
    and "set (oids_of (VArr marshalled))
           \<subseteq> set px \<union> set (ann_oids (wire s @ newObjects s1))"
    and "wire_inv px
           (s1\<lparr>wire := wire s1 @ newObjects s1
                         @ [CallMsg (IdNum (callId s1)) obj meth (VArr marshalled)],
               newObjects := [], inCall := False, callId := callId s1 + 1,
               pendingCalls := AList.update (callId s1) (callId s1) (pendingCalls s1)\<rparr>)"
proof -
  have inv0: "wire_inv px (s\<lparr>inCall := True\<rparr>)" using inv by (rule wire_inv_inCall)
  have inv1: "wire_inv px s1" using marshal_all_wire_inv [OF inv0, of args] m by simp
  show w: "wire s1 = wire s"
    using marshal_all_frame [of "s\<lparr>inCall := True\<rparr>" args] m by (simp add: marshal_frame_def)
  show "newObjects s = []" using inv c by (simp add: wire_inv_def)
  have o: "set (oids_of_all marshalled) \<subseteq> set px \<union> announced s1"
    using marshal_oids(2) [OF inv0, of args marshalled] m by simp
  then show o': "set (oids_of (VArr marshalled))
           \<subseteq> set px \<union> set (ann_oids (wire s @ newObjects s1))"
    by (simp add: announced_def ann_oids_append w)
  have nc: "\<forall>m. m \<in> set (newObjects s1) \<longrightarrow> \<not> is_call m"
    using inv1 by (simp add: wire_inv_def)
  have "ordered_wire px (wire s1 @ newObjects s1
          @ [CallMsg (IdNum (callId s1)) obj meth (VArr marshalled)])"
    using inv1 o' nc
    by (auto simp: ordered_wire_append ordered_wire_no_call wire_inv_def ann_oids_append w)
  with inv1 show "wire_inv px
           (s1\<lparr>wire := wire s1 @ newObjects s1
                         @ [CallMsg (IdNum (callId s1)) obj meth (VArr marshalled)],
               newObjects := [], inCall := False, callId := callId s1 + 1,
               pendingCalls := AList.update (callId s1) (callId s1) (pendingCalls s1)\<rparr>)"
    unfolding wire_inv_def by (auto simp: ann_oids_append)
qed

lemma call_wire_inv: "wire_inv px s \<Longrightarrow> wire_inv px (snd (call s obj meth args))"
proof -
  assume inv: "wire_inv px s"
  show ?thesis
  proof (cases "inCall s \<or> ended s")
    case True
    with inv show ?thesis by (auto simp: call_def)
  next
    case False
    then have c: "\<not> inCall s" "\<not> ended s" by simp_all
    obtain r s1 where m: "marshal_all (s\<lparr>inCall := True\<rparr>) args = (r, s1)"
      by (cases "marshal_all (s\<lparr>inCall := True\<rparr>) args")
    show ?thesis
    proof (cases r)
      case (Inl e)
      have "wire_inv px s1"
        using marshal_all_wire_inv [OF wire_inv_inCall [OF inv], of args] m by simp
      with m c Inl show ?thesis by (simp add: call_def)
    next
      case (Inr marshalled)
      show ?thesis
        unfolding call_success [OF c m [unfolded Inr]] snd_conv
        by (rule call_written(4) [OF inv c m [unfolded Inr]])
    qed
  qed
qed

lemma freeProxy_wire_inv: "wire_inv px s \<Longrightarrow> wire_inv px (freeProxy s ident)"
proof (cases "ended s")
  case True
  assume inv: "wire_inv px s"
  show ?thesis
    by (rule wire_inv_step [OF inv, of _ "[]"])
      (simp_all add: freeProxy_def True split: objid.splits)
next
  case False
  assume inv: "wire_inv px s"
  show ?thesis
    by (rule wire_inv_step [OF inv, of _ "[FreeMsg ident]"])
      (simp_all add: freeProxy_def False socket_write_def split: objid.splits)
qed

lemma fold_delete_other:
  assumes "fold (\<lambda>i m. m(i := None)) ids m k \<noteq> None"
  shows "m k \<noteq> None"
proof
  assume "m k = None"
  then have "fold (\<lambda>i m. m(i := None)) ids m k = None" by (rule fold_delete_keep)
  with assms show False by contradiction
qed

lemma object_free_wire_inv: "wire_inv px s \<Longrightarrow> wire_inv px (object_free s obj)"
proof (cases "freeIds (heap s obj) = []")
  case True
  assume inv: "wire_inv px s"
  have "wire_inv px (proxy_free s obj ms)" for ms
    by (rule proxy_free_rel) (simp_all add: inv freeProxy_wire_inv call_wire_inv)
  with True inv show ?thesis by (simp add: object_free_def split: option.splits)
next
  case False
  assume inv: "wire_inv px s"
  have k: "\<forall>oid. knownStubIds (object_free s obj) oid \<noteq> None \<longrightarrow> knownStubIds s oid \<noteq> None"
    using False fold_delete_other [of "freeIds (heap s obj)" "knownStubIds s"]
    by (simp add: object_free_def)
  show ?thesis
    by (rule wire_inv_step [OF inv, of _ "[]"]) (use False k in \<open>simp_all add: object_free_def\<close>)
qed

lemma handleCall_catch_wire_inv: "wire_inv px s \<Longrightarrow> wire_inv px (handleCall_catch s ident e)"
proof -
  assume inv: "wire_inv px s"
  have "\<exists>ms. wire (handleCall_catch s ident e) = wire s @ ms
          \<and> (\<forall>m. m \<in> set ms \<longrightarrow> \<not> is_call m)"
    by (auto simp: handleCall_catch_def socket_write_def)
  then obtain ms where "wire (handleCall_catch s ident e) = wire s @ ms"
    and "\<forall>m. m \<in> set ms \<longrightarrow> \<not> is_call m" by blast
  then show ?thesis
    by (rule wire_inv_step [OF inv]) (simp_all add: handleCall_catch_def socket_write_def)
qed

lemma handleCall_return_wire_inv:
  "wire_inv px s \<Longrightarrow> wire_inv px (handleCall_return s ident v)"
proof -
  assume inv: "wire_inv px s"
  obtain r s1 where m: "marshalArgument s v = (r, s1)" by (cases "marshalArgument s v")
  have inv1: "wire_inv px s1" using marshalArgument_wire_inv [OF inv, of v] m by simp
  show ?thesis
  proof (cases "ident = IdNull")
    case True
    with inv show ?thesis by (simp add: handleCall_return_def)
  next
    case False
    show ?thesis
    proof (cases r)
      case (Inl e)
      with m False inv1 show ?thesis
        by (simp add: handleCall_return_def handleCall_catch_wire_inv)
    next
      case (Inr w)
      have "wire_inv px (socket_write s1 (ReplyMsg ident None None None None w))"
        by (rule wire_inv_step [OF inv1, of _ "[ReplyMsg ident None None None None w]"])
          (simp_all add: socket_write_def)
      with m False Inr show ?thesis by (simp add: handleCall_return_def)
    qed
  qed
qed

lemma handleReply_wire_inv:
  "wire_inv px s \<Longrightarrow> wire_inv px (handleReply s ident error msg stack code reply)"
proof -
  assume inv: "wire_inv px s"
  show ?thesis
    by (rule wire_inv_same [OF inv])
      (simp_all add: handleReply_def Let_def reject_def resolve_def
        split: msgid.splits option.splits sum.splits)
qed

lemma handleMessage_wire_inv:
  "wire_inv px s \<Longrightarrow> wire_inv (px @ inbound_oids [OpData msg]) (handleMessage s msg)"
proof (cases msg)
  case (NewObjectMsg oid ms)
  assume inv: "wire_inv px s"
  then have inv': "wire_inv (px @ [oid]) s" by (rule wire_inv_mono [rotated]) auto
  show ?thesis
  proof (cases "knownProxies s oid")
    case None
    with inv' NewObjectMsg show ?thesis
      by (auto simp: wire_inv_def new_proxy_def Let_def)
  next
    case (Some p)
    with inv' NewObjectMsg show ?thesis by simp
  qed
next
  case (CallMsg ident obj meth params)
  then show "wire_inv px s \<Longrightarrow> ?thesis"
    by (simp add: handleCall_def handleCall_catch_wire_inv split: call_dispatch.splits)
next
  case (ReplyMsg ident error m stack code reply)
  then show "wire_inv px s \<Longrightarrow> ?thesis" by (simp add: handleReply_wire_inv)
next
  case (FreeMsg ident)
  assume inv: "wire_inv px s"
  have "wire_inv px (handleFree s ident)"
    by (rule wire_inv_step [OF inv, of _ "[]"]) (simp_all add: handleFree_def)
  with FreeMsg show ?thesis by simp
next
  case (OtherMsg c)
  then show "wire_inv px s \<Longrightarrow> ?thesis" by simp
qed

lemma step_wire_inv: "wire_inv px s \<Longrightarrow> wire_inv (px @ inbound_oids [op]) (step s op)"
proof (cases op)
  case (OpData msg)
  then show "wire_inv px s \<Longrightarrow> ?thesis" using handleMessage_wire_inv [of px s msg] by simp
next
  case (OpSocketError e)
  assume inv: "wire_inv px s"
  have "wire_inv px (on_error s e)"
    by (rule wire_inv_same [OF inv]) (simp_all add: on_error_def emit_def failAllCalls_eq)
  with OpSocketError show ?thesis by simp
next
  case OpSocketEnd
  assume inv: "wire_inv px s"
  have "wire_inv px (on_end s)"
    by (rule wire_inv_same [OF inv]) (simp_all add: on_end_def emit_def)
  with OpSocketEnd show ?thesis by simp
next
  case (OpSocketClose h)
  assume inv: "wire_inv px s"
  have "wire_inv px (on_close s h)"
    by (rule wire_inv_same [OF inv]) (simp_all add: on_close_def emit_def)
  with OpSocketClose show ?thesis by simp
next
  case (OpNewObject ob)
  assume inv: "wire_inv px s"
  have "wire_inv px (new_object s ob)"
    by (rule wire_inv_same [OF inv]) (simp_all add: new_object_def)
  with OpNewObject show ?thesis by simp
qed (simp_all add: addStub_wire_inv call_wire_inv freeProxy_wire_inv object_free_wire_inv
      handleCall_return_wire_inv handleCall_catch_wire_inv)

lemma run_snoc: "run s (ops @ [op]) = step (run s ops) op"
  by (simp add: run_def)

lemma reachable_wire_inv: "wire_inv (inbound_oids ops) (run (rpc_socket_init sid) ops)"
proof (induction ops rule: rev_induct)
  case Nil
  show ?case by (simp add: run_def wire_inv_init)
next
  case (snoc op ops)
  from step_wire_inv [OF snoc, of op] show ?case
    by (simp add: run_snoc inbound_oids_append)
qed


text \<open>
  C1 (as amended). On an endpoint reached from a fresh one by the operations \<open>ops\<close>, when
  \<open>call\<close> returns a pending promise: the buffer was empty before, nothing was written
  while the arguments were marshalled, and the wire has grown by the announcements buffered
  during the marshalling, in the order of the buffer, followed by the call frame. Every oid
  in the parameters of the call frame has been announced by a new-object frame written
  before the call frame, or is an oid that the peer has announced to this endpoint in the
  other direction (the oid of a proxy); and the whole wire is ordered in this sense.
\<close>

theorem call_frames_ordered:
  assumes "s = run (rpc_socket_init sid) ops"
    and "call s obj meth args = (Inr (PendingPromise n), s')"
  shows "\<exists>marshalled s1.
           marshal_all (s\<lparr>inCall := True\<rparr>) args = (Inr marshalled, s1)
           \<and> wire s1 = wire s \<and> newObjects s = []
           \<and> wire s' = wire s @ newObjects s1 @ [CallMsg (IdNum n) obj meth (VArr marshalled)]
           \<and> set (oids_of (VArr marshalled))
               \<subseteq> set (inbound_oids ops) \<union> set (ann_oids (wire s @ newObjects s1))
           \<and> ordered_wire (inbound_oids ops) (wire s')"
proof -
  have inv: "wire_inv (inbound_oids ops) s" unfolding assms(1) by (rule reachable_wire_inv)
  from assms(2) have c: "\<not> inCall s" "\<not> ended s"
    by (auto simp: call_def split: if_splits)
  obtain r s1 where m: "marshal_all (s\<lparr>inCall := True\<rparr>) args = (r, s1)"
    by (cases "marshal_all (s\<lparr>inCall := True\<rparr>) args")
  from assms(2) c m obtain marshalled where r: "r = Inr marshalled"
    by (cases r) (auto simp: call_def)
  note m' = m [unfolded r]
  from assms(2) have n: "n = callId s1"
    and s': "s' = s1\<lparr>wire := wire s1 @ newObjects s1
                         @ [CallMsg (IdNum (callId s1)) obj meth (VArr marshalled)],
               newObjects := [], inCall := False, callId := callId s1 + 1,
               pendingCalls := AList.update (callId s1) (callId s1) (pendingCalls s1)\<rparr>"
    unfolding call_success [OF c m'] by auto
  note cw = call_written [OF inv c m']
  have w: "wire s' = wire s @ newObjects s1 @ [CallMsg (IdNum n) obj meth (VArr marshalled)]"
    by (simp add: s' n cw(1))
  have "wire_inv (inbound_oids ops) s'" unfolding s' by (rule cw(4))
  then have o: "ordered_wire (inbound_oids ops) (wire s')" by (simp add: wire_inv_def)
  from m' cw(1) cw(2) w cw(3) o show ?thesis by blast
qed

lemma ex_mixed_call:
  "call ex_mixed (OidStr ''h-2:0:0'') ''checkObject''
      [VObj 0, VObj 1, VArr [VObj 0, VObj 1, VNum 7], VObj 2, VStr ''72'']
     = (Inr (PendingPromise 0),
        snd (call ex_mixed (OidStr ''h-2:0:0'') ''checkObject''
               [VObj 0, VObj 1, VArr [VObj 0, VObj 1, VNum 7], VObj 2, VStr ''72'']))
   \<and> wire (snd (call ex_mixed (OidStr ''h-2:0:0'') ''checkObject''
               [VObj 0, VObj 1, VArr [VObj 0, VObj 1, VNum 7], VObj 2, VStr ''72'']))
     = [NewObjectMsg ''h-1:0:0'' [''get owner'', ''frobnicate'', ''getValue''],
        CallMsg (IdNum 0) (OidStr ''h-2:0:0'') ''checkObject'' ex_payload_wire]"
  by (simp add: call_def ex_mixed_def ex_payload_wire_def run_def new_proxy_def
      new_object_def addStub_def rpc_socket_init_def stubbable_object_def proxy_object_def
      proxy_prop_def define_method_def plain_object_def make_free_def sendMetadata_def
      socket_write_def Let_def string_of_nat_0)

theorem call_frames_ordered_witness:
  "wire (snd (call ex_mixed (OidStr ''h-2:0:0'') ''checkObject''
               [VObj 0, VObj 1, VArr [VObj 0, VObj 1, VNum 7], VObj 2, VStr ''72'']))
     = [NewObjectMsg ''h-1:0:0'' [''get owner'', ''frobnicate'', ''getValue''],
        CallMsg (IdNum 0) (OidStr ''h-2:0:0'') ''checkObject'' ex_payload_wire]
   \<and> ordered_wire [''h-2:0:1'']
        (wire (snd (call ex_mixed (OidStr ''h-2:0:0'') ''checkObject''
               [VObj 0, VObj 1, VArr [VObj 0, VObj 1, VNum 7], VObj 2, VStr ''72''])))"
proof -
  have a: "call ex_mixed (OidStr ''h-2:0:0'') ''checkObject''
      [VObj 0, VObj 1, VArr [VObj 0, VObj 1, VNum 7], VObj 2, VStr ''72'']
     = (Inr (PendingPromise 0),
        snd (call ex_mixed (OidStr ''h-2:0:0'') ''checkObject''
               [VObj 0, VObj 1, VArr [VObj 0, VObj 1, VNum 7], VObj 2, VStr ''72'']))"
    using ex_mixed_call by (rule conjunct1)
  from call_frames_ordered [OF ex_mixed_def a]
  have "ordered_wire
          (inbound_oids
             [OpData (NewObjectMsg ''h-2:0:1'' [''get owner'', ''frobnicate'', ''getValue'']),
              OpNewObject (stubbable_object [''get owner'', ''frobnicate'', ''getValue'']),
              OpNewObject plain_object])
          (wire (snd (call ex_mixed (OidStr ''h-2:0:0'') ''checkObject''
               [VObj 0, VObj 1, VArr [VObj 0, VObj 1, VNum 7], VObj 2, VStr ''72''])))"
    by (elim exE conjE)
  then have "ordered_wire [''h-2:0:1'']
        (wire (snd (call ex_mixed (OidStr ''h-2:0:0'') ''checkObject''
               [VObj 0, VObj 1, VArr [VObj 0, VObj 1, VNum 7], VObj 2, VStr ''72''])))"
    by simp
  with ex_mixed_call show ?thesis by simp
qed

text \<open>
  C1 as stated fails for a proxy passed as an argument: it is marshalled to the oid of the
  peer's object, which no new-object frame of this direction has announced; here the call
  frame is the only frame written.
\<close>

theorem call_frames_ordered_counterexample:
  "wire (snd (call ex_proxy (OidStr ''h-2:0:0'') ''checkObject'' [VObj 0]))
     = [CallMsg (IdNum 0) (OidStr ''h-2:0:0'') ''checkObject'' (VArr [VOid ''h-2:0:1''])]
   \<and> \<not> ordered_wire [] (wire (snd (call ex_proxy (OidStr ''h-2:0:0'') ''checkObject'' [VObj 0])))"
  by (simp add: call_def ex_proxy_def run_def new_proxy_def rpc_socket_init_def
      proxy_object_def proxy_prop_def define_method_def socket_write_def Let_def)

end
